theory Spec2Isabelle
  imports Main "HOL-Library.Word"
begin

section \<open>Outcomes of a call\<close>

text \<open>
  The functions of \<^verbatim>\<open>session.c\<close> either return to their caller or leave
  defined behaviour. A call that leaves it is a value of \<open>abort\<close>:
  a dereferenced null pointer, a dereferenced indeterminate pointer, an access outside
  the block it addresses, a block released twice, a block used after its release, and
  a loop that never ends. A result is \<open>abort + 'a\<close>, with \<open>Inr\<close> the
  returned value.

  Allocation (\<^verbatim>\<open>malloc\<close>, \<^verbatim>\<open>calloc\<close>, \<^verbatim>\<open>realloc\<close>,
  \<^verbatim>\<open>strdup\<close>) is taken to succeed, logging macros have no effect on the
  state, and C's \<^verbatim>\<open>int\<close> counters are unbounded integers: no claim below reaches
  their limits.
\<close>

datatype abort = NullDeref | WildDeref | OutOfBounds | DoubleFree | UseAfterFree | NoReturn

definition deref :: "'a option \<Rightarrow> abort + 'a" where
  "deref p = (case p of None \<Rightarrow> Inl NullDeref | Some x \<Rightarrow> Inr x)"

definition EXIT_SUCCESS :: int where
  "EXIT_SUCCESS = 0"

definition EXIT_FAILURE :: int where
  "EXIT_FAILURE = 1"

section \<open>Capability set\<close>

text \<open>
  A slot of the pointer array \<^verbatim>\<open>char **list\<close> holds \<^verbatim>\<open>NULL\<close>, a
  pointer to a string of its own, or the indeterminate value that memory returned by
  \<^verbatim>\<open>malloc\<close> has before its first store. The array is a block of the heap: its
  slots, addressed by index, and the number of bytes that were asked for it. A pointer
  takes eight bytes, and a slot is inside the block when all of its bytes are;
  a load or a store at any other index leaves defined behaviour.
\<close>

datatype slot = Null | Str string | Garbage

datatype array = Array (cells: "int \<Rightarrow> slot") (extent: int)

definition sizeof_ptr :: int where
  "sizeof_ptr = 8"

definition in_block :: "array \<Rightarrow> int \<Rightarrow> bool" where
  "in_block a i = (0 \<le> i \<and> (i + 1) * sizeof_ptr \<le> extent a)"

definition load :: "array \<Rightarrow> int \<Rightarrow> abort + slot" where
  "load a i = (if in_block a i then Inr (cells a i) else Inl OutOfBounds)"

definition store :: "array \<Rightarrow> int \<Rightarrow> slot \<Rightarrow> abort + array" where
  "store a i v = (if in_block a i then Inr (Array ((cells a)(i := v)) (extent a)) else Inl OutOfBounds)"

text \<open>
  \<^verbatim>\<open>realloc (list, n)\<close> gives a block of \<open>n\<close> bytes that keeps the slots of the
  old block as far as both reach; what it has beyond the old block is indeterminate.
\<close>

definition realloc :: "array \<Rightarrow> int \<Rightarrow> array" where
  "realloc a n = Array (\<lambda>i. if in_block a i then cells a i else Garbage) n"

text \<open>
  Modelled from the spec: \<^verbatim>\<open>struct nc_cpblts\<close> is declared in a header that is
  not part of the source file. The spec's capability set has a single cursor, a
  capacity, a count of items and the storage; the names and the \<^verbatim>\<open>int\<close> type of
  the counters are the ones \<^verbatim>\<open>session.c\<close> uses.
\<close>

record nc_cpblts =
  iter :: int
  list_size :: int
  items :: int
  list :: "array option"

text \<open>What \<^verbatim>\<open>nc_cpblts_free\<close> hands to \<^verbatim>\<open>free\<close>, in order.\<close>

datatype block = Entry int | Storage | Struct

function free_entries :: "array \<Rightarrow> int \<Rightarrow> int \<Rightarrow> abort + block list" where
  "free_entries l n i =
     (if i < n then
        (case load l i of
           Inl e \<Rightarrow> Inl e
         | Inr Null \<Rightarrow> free_entries l n (i + 1)
         | Inr Garbage \<Rightarrow> Inl WildDeref
         | Inr (Str s) \<Rightarrow>
             (case free_entries l n (i + 1) of
                Inl e \<Rightarrow> Inl e
              | Inr bs \<Rightarrow> Inr (Entry i # bs)))
      else Inr [])"
  by pat_completeness auto
termination
  by (relation "measure (\<lambda>(l, n, i). nat (n - i))") auto

definition nc_cpblts_free :: "nc_cpblts option \<Rightarrow> abort + block list" where
  "nc_cpblts_free c =
     (case c of
        None \<Rightarrow> Inr []
      | Some s \<Rightarrow>
          (case list s of
             None \<Rightarrow> Inr [Struct]
           | Some l \<Rightarrow>
               (if items s \<le> list_size s then
                  (case free_entries l (items s) 0 of
                     Inl e \<Rightarrow> Inl e
                   | Inr bs \<Rightarrow> Inr (bs @ [Storage, Struct]))
                else Inr [Storage, Struct])))"

definition list_at :: "string list \<Rightarrow> nat \<Rightarrow> string option" where
  "list_at xs i = (if i < length xs then Some (xs ! i) else None)"

text \<open>
  The loop of \<^verbatim>\<open>nc_cpblts_new\<close>:
  \<^verbatim>\<open>for (i = 0, item = list[i]; item != NULL; item = list[i++])\<close>. The caller's
  array is the strings before its terminating \<^verbatim>\<open>NULL\<close>; the step reads
  \<^verbatim>\<open>list[i]\<close> and only then advances \<open>i\<close>. When the set is full the array is
  given \<^verbatim>\<open>list_size * 2\<close> bytes, not slots.
\<close>

function new_loop :: "string list \<Rightarrow> nat \<Rightarrow> string option \<Rightarrow> int \<Rightarrow> int \<Rightarrow> array
    \<Rightarrow> abort + int \<times> int \<times> array" where
  "new_loop xs i item n sz l =
     (case item of
        None \<Rightarrow> Inr (n, sz, l)
      | Some s \<Rightarrow>
          (case store l (int i) (Str s) of
             Inl e \<Rightarrow> Inl e
           | Inr l1 \<Rightarrow>
               (let n1 = n + 1;
                    l2 = (if n1 = sz then realloc l1 (sz * 2) else l1);
                    sz1 = (if n1 = sz then sz * 2 else sz)
                in case store l2 (int i + 1) Null of
                     Inl e \<Rightarrow> Inl e
                   | Inr l3 \<Rightarrow> new_loop xs (i + 1) (list_at xs i) n1 sz1 l3)))"
  by pat_completeness auto
termination
  by (relation "measure (\<lambda>(xs, i, item, n, sz, l).
        (case item of None \<Rightarrow> 0 | Some s \<Rightarrow> Suc (Suc (length xs) - i)))")
     (auto simp: list_at_def)

text \<open>
  \<open>mem\<close> is the content of the freshly allocated array of ten slots; a \<^verbatim>\<open>NULL\<close>
  argument is \<open>None\<close>.
\<close>

definition nc_cpblts_new :: "(int \<Rightarrow> slot) \<Rightarrow> string list option \<Rightarrow> abort + nc_cpblts" where
  "nc_cpblts_new mem lst =
     (let l0 = Array (mem(0 := Null)) (10 * sizeof_ptr) in
      case lst of
        None \<Rightarrow> Inr \<lparr>iter = 0, list_size = 10, items = 0, list = Some l0\<rparr>
      | Some xs \<Rightarrow>
          (case new_loop xs 0 (list_at xs 0) 0 10 l0 of
             Inl e \<Rightarrow> Inl e
           | Inr (n, sz, l) \<Rightarrow> Inr \<lparr>iter = 0, list_size = sz, items = n, list = Some l\<rparr>))"

definition nc_cpblts_add :: "nc_cpblts option \<Rightarrow> string option \<Rightarrow> abort + int \<times> nc_cpblts option" where
  "nc_cpblts_add capabilities capability_string =
     (case (capabilities, capability_string) of
        (Some c, Some s) \<Rightarrow>
          (if items c > list_size c then Inr (EXIT_FAILURE, Some c)
           else
             (case list c of
                None \<Rightarrow> Inl NullDeref
              | Some l \<Rightarrow>
                  (case store l (items c) (Str s) of
                     Inl e \<Rightarrow> Inl e
                   | Inr l1 \<Rightarrow>
                       (let n = items c + 1;
                            l2 = (if n = list_size c then realloc l1 (list_size c * 2) else l1);
                            sz = (if n = list_size c then list_size c * 2 else list_size c)
                        in case store l2 (n + 1) Null of
                             Inl e \<Rightarrow> Inl e
                           | Inr l3 \<Rightarrow>
                               Inr (EXIT_SUCCESS,
                                 Some (c\<lparr>items := n, list_size := sz, list := Some l3\<rparr>))))))
      | _ \<Rightarrow> Inr (EXIT_FAILURE, capabilities))"

function remove_find :: "array \<Rightarrow> int \<Rightarrow> string \<Rightarrow> int \<Rightarrow> abort + int" where
  "remove_find l n s i =
     (if i < n then
        (case load l i of
           Inl e \<Rightarrow> Inl e
         | Inr Null \<Rightarrow> remove_find l n s (i + 1)
         | Inr Garbage \<Rightarrow> Inl WildDeref
         | Inr (Str t) \<Rightarrow> (if t = s then Inr i else remove_find l n s (i + 1)))
      else Inr i)"
  by pat_completeness auto
termination
  by (relation "measure (\<lambda>(l, n, s, i). nat (n - i))") auto

definition nc_cpblts_remove :: "nc_cpblts option \<Rightarrow> string option \<Rightarrow> abort + int \<times> nc_cpblts option" where
  "nc_cpblts_remove capabilities capability_string =
     (case (capabilities, capability_string) of
        (Some c, Some s) \<Rightarrow>
          (if items c > list_size c then Inr (EXIT_FAILURE, Some c)
           else
             (case list c of
                None \<Rightarrow> (if 0 < items c then Inl NullDeref else Inr (EXIT_SUCCESS, Some c))
              | Some l \<Rightarrow>
                  (case remove_find l (items c) s 0 of
                     Inl e \<Rightarrow> Inl e
                   | Inr i \<Rightarrow>
                       (if i < items c then
                          (case load l (items c - 1) of
                             Inl e \<Rightarrow> Inl e
                           | Inr moved \<Rightarrow>
                               (case store l i moved of
                                  Inl e \<Rightarrow> Inl e
                                | Inr l1 \<Rightarrow>
                                    (case store l1 (items c - 1) Null of
                                       Inl e \<Rightarrow> Inl e
                                     | Inr l2 \<Rightarrow>
                                         Inr (EXIT_SUCCESS,
                                           Some (c\<lparr>list_size := list_size c - 1, list := Some l2\<rparr>)))))
                        else Inr (EXIT_SUCCESS, Some c)))))
      | _ \<Rightarrow> Inr (EXIT_FAILURE, capabilities))"

definition nc_cpblts_iter_start :: "nc_cpblts option \<Rightarrow> nc_cpblts option" where
  "nc_cpblts_iter_start c = (case c of None \<Rightarrow> None | Some s \<Rightarrow> Some (s\<lparr>iter := 0\<rparr>))"

definition nc_cpblts_iter_next :: "nc_cpblts option \<Rightarrow> abort + string option \<times> nc_cpblts option" where
  "nc_cpblts_iter_next c =
     (case c of
        None \<Rightarrow> Inr (None, None)
      | Some s \<Rightarrow>
          (case list s of
             None \<Rightarrow> Inr (None, c)
           | Some l \<Rightarrow>
               (if iter s > items s - 1 then Inr (None, c)
                else
                  (case load l (iter s) of
                     Inl e \<Rightarrow> Inl e
                   | Inr Null \<Rightarrow> Inl NullDeref
                   | Inr Garbage \<Rightarrow> Inl WildDeref
                   | Inr (Str t) \<Rightarrow> Inr (Some t, Some (s\<lparr>iter := iter s + 1\<rparr>))))))"

section \<open>C strings and numbers\<close>

text \<open>
  A byte is a \<open>char\<close>. A buffer read as a C string ends at its first zero byte.
\<close>

definition NUL :: char where
  "NUL = CHR 0x00"

definition LF :: char where
  "LF = CHR 0x0A"

definition cstr :: "string \<Rightarrow> string" where
  "cstr s = takeWhile (\<lambda>c. c \<noteq> NUL) s"

definition isspace :: "char \<Rightarrow> bool" where
  "isspace c = (c \<in> set [CHR 0x20, CHR 0x09, CHR 0x0A, CHR 0x0B, CHR 0x0C, CHR 0x0D])"

definition isdigit :: "char \<Rightarrow> bool" where
  "isdigit c = (c \<in> set ''0123456789'')"

definition digit_val :: "char \<Rightarrow> nat" where
  "digit_val c = of_char c - 48"

definition digit_char :: "nat \<Rightarrow> char" where
  "digit_char d = ''0123456789'' ! d"

fun digits_val :: "nat \<Rightarrow> string \<Rightarrow> nat" where
  "digits_val a [] = a"
| "digits_val a (c # cs) = (if isdigit c then digits_val (10 * a + digit_val c) cs else a)"

definition ULONG_MAX :: nat where
  "ULONG_MAX = 2 ^ 64 - 1"

text \<open>
  \<^verbatim>\<open>strtoul (s, NULL, 10)\<close> with a 64-bit \<^verbatim>\<open>unsigned long\<close>: white space is
  skipped, one sign is accepted, the longest run of digits is converted, and whatever
  follows is ignored. No digit gives 0; a value out of range gives
  \<^verbatim>\<open>ULONG_MAX\<close>; a minus sign negates modulo \<open>2 ^ 64\<close>.
  \<^verbatim>\<open>strtoull\<close> is the same function on this platform.
\<close>

definition strtoul :: "string \<Rightarrow> nat" where
  "strtoul s =
     (let s1 = dropWhile isspace s;
          neg = (case s1 of [] \<Rightarrow> False | c # r \<Rightarrow> c = CHR ''-'');
          s2 = (case s1 of [] \<Rightarrow> [] | c # r \<Rightarrow> if c = CHR ''-'' \<or> c = CHR ''+'' then r else s1);
          v = digits_val 0 s2
      in if v > ULONG_MAX then ULONG_MAX
         else if neg then (2 ^ 64 - v) mod 2 ^ 64
         else v)"

definition strtoull :: "string \<Rightarrow> nat" where
  "strtoull s = strtoul s"

text \<open>The digits that \<^verbatim>\<open>%llu\<close> and \<^verbatim>\<open>%d\<close> print.\<close>

function dec :: "nat \<Rightarrow> string" where
  "dec n = (if n < 10 then [digit_char n] else dec (n div 10) @ [digit_char (n mod 10)])"
  by pat_completeness auto
termination
  by (relation "measure (\<lambda>n. n)") auto

declare dec.simps [simp del]

definition dec_int :: "int \<Rightarrow> string" where
  "dec_int i = (if i < 0 then CHR ''-'' # dec (nat (- i)) else dec (nat i))"

section \<open>XML documents and messages\<close>

text \<open>
  The XML library is outside the repository. A node carries what the session code
  reads and writes: its name, its attributes, the namespaces declared on it and its
  children. A document is the list of its top-level nodes, so that
  \<^verbatim>\<open>doc->children\<close> is the first of them or \<^verbatim>\<open>NULL\<close>. The parser
  \<^verbatim>\<open>xmlReadDoc\<close> and the serialiser \<^verbatim>\<open>xmlDocDumpFormatMemory\<close> are
  parameters of the functions that call them.
\<close>

datatype xml_node =
  Node (name: string) (properties: "(string \<times> string) list")
       (nsDef: "(string option \<times> string) list") (children: "xml_node list")

type_synonym xmlDoc = "xml_node list"

definition first_node :: "xml_node list \<Rightarrow> xml_node option" where
  "first_node ns = (case ns of [] \<Rightarrow> None | n # r \<Rightarrow> Some n)"

definition xmlGetProp :: "xml_node \<Rightarrow> string \<Rightarrow> string option" where
  "xmlGetProp n k = map_of (properties n) k"

fun set_prop :: "(string \<times> string) list \<Rightarrow> string \<Rightarrow> string \<Rightarrow> (string \<times> string) list" where
  "set_prop [] k v = [(k, v)]"
| "set_prop ((k', v') # ps) k v = (if k' = k then (k', v) # ps else (k', v') # set_prop ps k v)"

definition xmlSetProp :: "xml_node \<Rightarrow> string \<Rightarrow> string \<Rightarrow> xml_node" where
  "xmlSetProp n k v = Node (name n) (set_prop (properties n) k v) (nsDef n) (children n)"

definition xmlNewNs :: "xml_node \<Rightarrow> string \<Rightarrow> string option \<Rightarrow> xml_node" where
  "xmlNewNs n href prefix =
     (if prefix \<in> fst ` set (nsDef n) then n
      else Node (name n) (properties n) (nsDef n @ [(prefix, href)]) (children n))"

text \<open>
  Modelled from the spec: the reply types and \<^verbatim>\<open>struct nc_msg\<close> are declared in
  headers that are not part of the source file. The spec's message is a document with
  a 64-bit unsigned message id and a classification, one of OK, ERROR, DATA and UNKNOWN.
\<close>

datatype NC_REPLY_TYPE = NC_REPLY_UNKNOWN | NC_REPLY_OK | NC_REPLY_ERROR | NC_REPLY_DATA

type_synonym nc_msgid = "64 word"

record nc_msg =
  doc :: "xmlDoc option"
  msgid :: nc_msgid
  type :: NC_REPLY_TYPE

text \<open>
  Modelled from the spec: \<^verbatim>\<open>nc_msg_dup\<close> is the duplicate-message helper of the
  message module, which is not part of the source file; it deep-copies the document.
  Messages are values here, so the copy is the message itself, and
  \<^verbatim>\<open>nc_msg_free\<close>, which releases it, changes nothing.
\<close>

definition nc_msg_dup :: "nc_msg option \<Rightarrow> nc_msg option" where
  "nc_msg_dup m = m"

text \<open>
  Modelled from the spec: \<^verbatim>\<open>nc_reply_get_msgid\<close> is the reply-msgid accessor of
  the message module, which is not part of the source file.
\<close>

definition nc_reply_get_msgid :: "nc_msg option \<Rightarrow> nc_msgid" where
  "nc_reply_get_msgid reply = (case reply of None \<Rightarrow> 0 | Some m \<Rightarrow> msgid m)"

text \<open>
  Modelled from the spec: the version numbers \<^verbatim>\<open>NETCONFV10\<close> and
  \<^verbatim>\<open>NETCONFV11\<close> come from a header that is not part of the source file. The
  spec has two protocol versions; their numbers are only required to differ.
\<close>

definition NETCONFV10 :: int where
  "NETCONFV10 = 0"

text \<open>Modelled from the spec: the second of the two version numbers.\<close>

definition NETCONFV11 :: int where
  "NETCONFV11 = 1"

text \<open>
  Modelled from the spec: the macro \<^verbatim>\<open>NC_V10_END_MSG\<close> is defined in a header
  that is not part of the source file. The spec gives the terminator of version 1.0 as
  the six bytes \<^verbatim>\<open>]]>]]>\<close>.
\<close>

definition NC_V10_END_MSG :: string where
  "NC_V10_END_MSG = '']]>]]>''"

text \<open>
  Modelled from the spec: the macro \<^verbatim>\<open>NC_V11_END_MSG\<close>, from the same header.
  The spec gives the terminator of version 1.1 as \<^verbatim>\<open>\n##\n\<close>.
\<close>

definition NC_V11_END_MSG :: string where
  "NC_V11_END_MSG = [LF, CHR ''#'', CHR ''#'', LF]"

text \<open>
  Modelled from the spec: the macro \<^verbatim>\<open>NC_NS_BASE10\<close>, from the same header. The
  spec gives the base namespace of version 1.0.
\<close>

definition NC_NS_BASE10 :: string where
  "NC_NS_BASE10 = ''urn:ietf:params:xml:ns:netconf:base:1.0''"

text \<open>
  Modelled from the spec: the macro \<^verbatim>\<open>NC_NS_BASE11\<close>, from the same header. The
  spec gives the base namespace of version 1.1.
\<close>

definition NC_NS_BASE11 :: string where
  "NC_NS_BASE11 = ''urn:ietf:params:xml:ns:netconf:base:1.1''"

section \<open>Sessions and the transport\<close>

text \<open>
  Modelled from the spec: \<^verbatim>\<open>struct nc_session\<close> is declared in a header that is
  not part of the source file. The spec's session owns a transport, optional SSH
  handles, the peer's host and user names, a capability set, the negotiated version and
  the message-id counter; the field names are the ones \<^verbatim>\<open>session.c\<close> uses. The
  two SSH handles are opaque: only whether they are \<^verbatim>\<open>NULL\<close> matters, so they
  are booleans (\<open>True\<close> for a handle).
\<close>

record nc_session =
  session_id :: string
  fd_input :: int
  fd_output :: int
  libssh2_socket :: int
  ssh_session :: bool
  ssh_channel :: bool
  hostname :: "string option"
  username :: "string option"
  version :: int
  capabilities :: "nc_cpblts option"
  msgid :: nc_msgid

text \<open>
  What the peer and the operating system contribute. The input is the sequence of
  events the read calls meet: bytes that have arrived together, a would-block signal,
  or an error; the end of the list is the end of the stream. The output collects the
  bytes written. \<open>buflen\<close> and \<open>buf_freed\<close> are the \<^verbatim>\<open>static\<close> variables
  of \<^verbatim>\<open>nc_session_read_until\<close> (the size of its buffer, and whether an error
  return has released it), and \<open>junk\<close> is the content of memory that was allocated
  but never written, or that lies behind the buffer; one function of the position
  stands for every read of such a byte.
\<close>

datatype io = Recv string | Again | IoError

record world =
  w_in :: "io list"
  w_out :: string
  buflen :: nat
  buf_freed :: bool
  junk :: "nat \<Rightarrow> char"

section \<open>Accessors\<close>

definition nc_session_get_id :: "nc_session option \<Rightarrow> abort + string option" where
  "nc_session_get_id session =
     (if session = None then Inr None
      else case deref session of Inl e \<Rightarrow> Inl e | Inr s \<Rightarrow> Inr (Some (cstr (session_id s))))"

definition nc_session_get_version :: "nc_session option \<Rightarrow> abort + int" where
  "nc_session_get_version session =
     (if session = None then Inr (- 1)
      else case deref session of Inl e \<Rightarrow> Inl e | Inr s \<Rightarrow> Inr (version s))"

definition nc_session_get_eventfd :: "nc_session option \<Rightarrow> abort + int" where
  "nc_session_get_eventfd session =
     (if session = None then Inr (- 1)
      else case deref session of
             Inl e \<Rightarrow> Inl e
           | Inr s \<Rightarrow>
               (if libssh2_socket s \<noteq> - 1 then Inr (libssh2_socket s)
                else if fd_input s \<noteq> - 1 then Inr (fd_input s)
                else Inr (- 1)))"

definition nc_session_get_cpblts :: "nc_session option \<Rightarrow> abort + nc_cpblts option" where
  "nc_session_get_cpblts session =
     (if session = None then Inr None
      else case deref session of Inl e \<Rightarrow> Inl e | Inr s \<Rightarrow> Inr (capabilities s))"

section \<open>Sending\<close>

text \<open>
  \<^verbatim>\<open>NC_WRITE\<close> inside its \<^verbatim>\<open>do ... while (c != strlen (buf))\<close> loop: the
  write calls are taken to accept bytes until the whole C string is out, whichever of
  the two substrates carries it. A write call that returns an error is not part of the
  model: the code adds the negative result to its position \<open>c\<close> and goes on writing
  from there, which is before the start of the text when nothing had been written.
\<close>

definition NC_WRITE :: "string \<Rightarrow> world \<Rightarrow> world" where
  "NC_WRITE buf w = w\<lparr>w_out := w_out w @ cstr buf\<rparr>"

definition nc_session_send :: "(xmlDoc \<Rightarrow> string) \<Rightarrow> nc_session option \<Rightarrow> nc_msg option \<Rightarrow> world
    \<Rightarrow> abort + int \<times> world" where
  "nc_session_send dump session msg w =
     (case deref session of
        Inl e \<Rightarrow> Inl e
      | Inr s \<Rightarrow>
          (if \<not> ssh_channel s \<and> fd_output s = - 1 then Inr (EXIT_FAILURE, w)
           else
             (case deref msg of
                Inl e \<Rightarrow> Inl e
              | Inr m \<Rightarrow>
                  (case deref (doc m) of
                     Inl e \<Rightarrow> Inl e
                   | Inr d \<Rightarrow>
                       (let text = cstr (dump d);
                            w1 = (if version s = NETCONFV11
                                  then NC_WRITE ([LF, CHR ''#'']
                                         @ dec_int (sint (word_of_nat (length text) :: 32 word))
                                         @ [LF]) w
                                  else w);
                            w2 = NC_WRITE text w1;
                            w3 = NC_WRITE (if version s = NETCONFV11 then NC_V11_END_MSG
                                           else NC_V10_END_MSG) w2
                        in Inr (EXIT_SUCCESS, w3))))))"

text \<open>
  The message id is printed with \<^verbatim>\<open>%llu\<close> into \<^verbatim>\<open>char msg_id_str[16]\<close>:
  sixteen digits or more do not fit with their terminator.
\<close>

definition stamp_node :: "nc_session \<Rightarrow> xml_node \<Rightarrow> xml_node \<Rightarrow> abort + nc_session \<times> xml_node" where
  "stamp_node s rpc_root msg_root =
     (if name rpc_root = ''rpc'' then
        (let msg_id_str = dec (unat (msgid s)) in
         if length msg_id_str + 1 > 16 then Inl OutOfBounds
         else Inr (s\<lparr>msgid := msgid s + 1\<rparr>, xmlSetProp msg_root ''message-id'' msg_id_str))
      else Inr (s, msg_root))"

definition nc_session_send_rpc :: "(xmlDoc \<Rightarrow> string) \<Rightarrow> nc_session option \<Rightarrow> nc_msg option \<Rightarrow> world
    \<Rightarrow> abort + nc_msgid \<times> nc_session option \<times> world" where
  "nc_session_send_rpc dump session rpc w =
     (case session of
        None \<Rightarrow> Inr (0, session, w)
      | Some s \<Rightarrow>
          (if hostname s = None then Inr (0, session, w)
           else
             (case deref rpc of
                Inl e \<Rightarrow> Inl e
              | Inr r \<Rightarrow>
                  (case deref (doc r) of
                     Inl e \<Rightarrow> Inl e
                   | Inr d \<Rightarrow>
                       (case deref (first_node d) of
                          Inl e \<Rightarrow> Inl e
                        | Inr root \<Rightarrow>
                            (case nc_msg_dup rpc of
                               None \<Rightarrow> Inl NullDeref
                             | Some msg \<Rightarrow>
                                 (case stamp_node s root root of
                                    Inl e \<Rightarrow> Inl e
                                  | Inr (s1, root1) \<Rightarrow>
                                      (let root2 = xmlNewNs root1
                                             (if version s1 = NETCONFV10 then NC_NS_BASE10
                                              else NC_NS_BASE11) None;
                                           msg2 = msg\<lparr>doc := Some (root2 # tl d)\<rparr>
                                       in case nc_session_send dump (Some s1) (Some msg2) w of
                                            Inl e \<Rightarrow> Inl e
                                          | Inr (ret, w1) \<Rightarrow>
                                              (if ret \<noteq> EXIT_SUCCESS
                                               then Inr (0, Some (s1\<lparr>msgid := msgid s1 - 1\<rparr>), w1)
                                               else Inr (msgid s1, Some s1, w1))))))))))"

section \<open>Reading\<close>

text \<open>
  One pass through the read block that \<^verbatim>\<open>nc_session_read_len\<close> and
  \<^verbatim>\<open>nc_session_read_until\<close> share, asking for \<open>n\<close> bytes. Over the SSH channel,
  a would-block code and a zero count before the end of the stream make the loop go
  round again, an error and the end of the stream make the function fail. Over a file
  descriptor, would-block goes round again and any other error fails; a zero count is
  added like any other, and at the end of the stream every further read returns zero,
  so the loop spins. With neither substrate the function fails.
\<close>

datatype step = Data string | Continue | Failure | Spin

definition rest_after :: "nat \<Rightarrow> string \<Rightarrow> io list \<Rightarrow> io list" where
  "rest_after n bs r = (if drop n bs = [] then r else Recv (drop n bs) # r)"

definition read_step :: "nc_session \<Rightarrow> nat \<Rightarrow> io list \<Rightarrow> step \<times> io list" where
  "read_step s n evs =
     (if ssh_channel s then
        (case evs of
           [] \<Rightarrow> (Failure, [])
         | Again # r \<Rightarrow> (Continue, r)
         | IoError # r \<Rightarrow> (Failure, r)
         | Recv bs # r \<Rightarrow> (if bs = [] then (Continue, r) else (Data (take n bs), rest_after n bs r)))
      else if fd_input s \<noteq> - 1 then
        (case evs of
           [] \<Rightarrow> (Spin, [])
         | Again # r \<Rightarrow> (Continue, r)
         | IoError # r \<Rightarrow> (Failure, r)
         | Recv bs # r \<Rightarrow> (Data (take n bs), rest_after n bs r))
      else (Failure, evs))"

fun io_size :: "io \<Rightarrow> nat" where
  "io_size (Recv bs) = Suc (length bs)"
| "io_size Again = 1"
| "io_size IoError = 1"

definition pending :: "io list \<Rightarrow> nat" where
  "pending evs = sum_list (map io_size evs)"

lemma pending_rest_after:
  "0 < n \<Longrightarrow> pending (rest_after n bs r) < pending (Recv bs # r)"
  by (cases bs) (auto simp: pending_def rest_after_def)

lemma read_step_Data_pending:
  "read_step s n evs = (Data bs, r) \<Longrightarrow> 0 < n \<Longrightarrow> pending r < pending evs"
  by (auto simp: read_step_def pending_rest_after split: if_splits list.splits io.splits)

lemma read_step_Continue_pending:
  "read_step s n evs = (Continue, r) \<Longrightarrow> pending r < pending evs"
  by (auto simp: read_step_def pending_def split: if_splits list.splits io.splits)

lemma read_step_pending_le:
  "read_step s n evs = (x, r) \<Longrightarrow> pending r \<le> pending evs"
  by (auto simp: read_step_def pending_def rest_after_def split: if_splits list.splits io.splits)

text \<open>
  \<^verbatim>\<open>nc_session_read_len\<close>: \<open>buf\<close> holds the \<open>rd\<close> bytes read so far, in a
  block of \<open>cap\<close> bytes; the bytes of a read, and the terminating zero byte after the
  loop, are stored in the block or leave defined behaviour. The result is the buffer
  (\<open>None\<close> for \<^verbatim>\<open>EXIT_FAILURE\<close>) and the input left.
\<close>

function read_len_loop :: "nc_session \<Rightarrow> nat \<Rightarrow> nat \<Rightarrow> string \<Rightarrow> io list
    \<Rightarrow> abort + string option \<times> io list" where
  "read_len_loop s cap chunk_length buf evs =
     (if length buf < chunk_length then
        (case read_step s (chunk_length - length buf) evs of
           (Continue, r) \<Rightarrow> read_len_loop s cap chunk_length buf r
         | (Failure, r) \<Rightarrow> Inr (None, r)
         | (Spin, r) \<Rightarrow> Inl NoReturn
         | (Data bs, r) \<Rightarrow>
             (if cap < length buf + length bs then Inl OutOfBounds
              else read_len_loop s cap chunk_length (buf @ bs) r))
      else if cap \<le> length buf then Inl OutOfBounds
      else Inr (Some buf, evs))"
  by pat_completeness auto
termination
proof (relation "measure (\<lambda>(s, cap, n, buf, evs). pending evs)", goal_cases)
  case 1
  show ?case by simp
next
  case (2 s cap n buf evs x r bs)
  then show ?case using read_step_Data_pending [of s "n - length buf" evs bs r] by simp
next
  case (3 s cap n buf evs x r)
  then show ?case using read_step_Continue_pending [of s "n - length buf" evs r] by simp
qed

declare read_len_loop.simps [simp del]

text \<open>
  The buffer is allocated with \<^verbatim>\<open>chunk_length + 1\<close> bytes, computed in
  \<^verbatim>\<open>size_t\<close>: for the largest length the sum wraps to zero and the block has
  no bytes. Over a file descriptor the operating system then refuses the first
  \<^verbatim>\<open>read\<close>, whose count of \<open>2 ^ 64 - 1\<close> bytes is more than a call can return,
  and the function fails with the input untouched; over the SSH channel the first
  bytes that arrive are stored outside the block.
\<close>

definition nc_session_read_len :: "nc_session \<Rightarrow> nat \<Rightarrow> world \<Rightarrow> abort + string option \<times> world" where
  "nc_session_read_len s chunk_length w =
     (let cap = (chunk_length + 1) mod 2 ^ 64 in
      if cap = 0 \<and> \<not> ssh_channel s \<and> fd_input s \<noteq> - 1 then Inr (None, w)
      else
        (case read_len_loop s cap chunk_length [] (w_in w) of
           Inl e \<Rightarrow> Inl e
         | Inr (r, evs) \<Rightarrow> Inr (r, w\<lparr>w_in := evs\<rparr>)))"

definition strlen :: "string \<Rightarrow> nat" where
  "strlen s = length (cstr s)"

text \<open>\<^verbatim>\<open>strcmp (a, b) == 0\<close>, on the bytes found at the two addresses.\<close>

definition strcmp_eq :: "string \<Rightarrow> string \<Rightarrow> bool" where
  "strcmp_eq a b = (cstr a = cstr b)"

text \<open>
  The byte at \<^verbatim>\<open>buf[rd]\<close>, which no read has stored yet: zero where the
  \<^verbatim>\<open>memset\<close> at the start of the call reached (the first \<open>bl0\<close> bytes), and
  whatever memory holds beyond.
\<close>

definition byte_after :: "nat \<Rightarrow> (nat \<Rightarrow> char) \<Rightarrow> nat \<Rightarrow> char" where
  "byte_after bl0 jk rd = (if rd < bl0 then NUL else jk rd)"

text \<open>
  The loop of \<^verbatim>\<open>nc_session_read_until\<close>, one byte per read. \<open>bl0\<close> is the size
  of the buffer when the call began, \<open>bl\<close> its size now and \<open>buf\<close> the \<open>rd\<close>
  bytes read so far. The result is \<open>None\<close> for \<^verbatim>\<open>EXIT_FAILURE\<close>, or the count
  stored in \<^verbatim>\<open>*len\<close> and the copy stored in \<^verbatim>\<open>*text\<close>; then the size of the
  buffer and the input left.
\<close>

function read_until_loop :: "nc_session \<Rightarrow> string \<Rightarrow> (nat \<Rightarrow> char) \<Rightarrow> nat \<Rightarrow> nat \<Rightarrow> string \<Rightarrow> io list
    \<Rightarrow> abort + (nat \<times> string) option \<times> nat \<times> io list" where
  "read_until_loop s endtag jk bl0 bl buf evs =
     (case read_step s 1 evs of
        (Continue, r) \<Rightarrow> read_until_loop s endtag jk bl0 bl buf r
      | (Failure, r) \<Rightarrow> Inr (None, bl, r)
      | (Spin, r) \<Rightarrow> Inl NoReturn
      | (Data bs, r) \<Rightarrow>
          (let buf1 = buf @ bs; rd = length buf1 in
           if rd < strlen endtag then read_until_loop s endtag jk bl0 bl buf1 r
           else if strcmp_eq endtag (drop (rd - strlen endtag) buf1 @ [byte_after bl0 jk rd])
             then Inr (Some (rd, cstr buf1), bl, r)
           else read_until_loop s endtag jk bl0 (if rd = bl then 2 * bl else bl) buf1 r))"
  by pat_completeness auto
termination
proof (relation "measure (\<lambda>(s, endtag, jk, bl0, bl, buf, evs). pending evs)", goal_cases)
  case 1
  show ?case by simp
next
  case (2 s endtag jk bl0 bl buf evs x r bs)
  then show ?case using read_step_Data_pending [of s 1 evs bs r] by simp
next
  case (3 s endtag jk bl0 bl buf evs x r bs)
  then show ?case using read_step_Data_pending [of s 1 evs bs r] by simp
next
  case (4 s endtag jk bl0 bl buf evs x r)
  then show ?case using read_step_Continue_pending [of s 1 evs r] by simp
qed

declare read_until_loop.simps [simp del]

text \<open>
  The buffer is \<^verbatim>\<open>static\<close>: it is allocated with 1024 bytes by the first call,
  cleared at the start of every call, doubled when it is full, and released, its
  pointer kept, by a call that fails. With \<^verbatim>\<open>NULL\<close> for \<^verbatim>\<open>text\<close> and
  \<^verbatim>\<open>len\<close> the two results are not stored; the caller of the model ignores them.
\<close>

definition nc_session_read_until :: "nc_session \<Rightarrow> string \<Rightarrow> world
    \<Rightarrow> abort + (nat \<times> string) option \<times> world" where
  "nc_session_read_until s endtag w =
     (if buflen w \<noteq> 0 \<and> buf_freed w then Inl UseAfterFree
      else
        (let bl0 = (if buflen w = 0 then 1024 else buflen w) in
         case read_until_loop s endtag (junk w) bl0 bl0 [] (w_in w) of
           Inl e \<Rightarrow> Inl e
         | Inr (None, bl, r) \<Rightarrow> Inr (None, w\<lparr>w_in := r, buflen := bl, buf_freed := True\<rparr>)
         | Inr (Some res, bl, r) \<Rightarrow> Inr (Some res, w\<lparr>w_in := r, buflen := bl, buf_freed := False\<rparr>)))"

lemma read_len_loop_pending:
  "read_len_loop s cap n buf evs = Inr (x, r) \<Longrightarrow> pending r \<le> pending evs"
proof (induction s cap n buf evs rule: read_len_loop.induct)
  case (1 s cap n buf evs)
  show ?case
  proof (cases "length buf < n")
    case False
    with "1.prems" show ?thesis
      by (simp add: read_len_loop.simps [of s cap n buf evs] split: if_splits)
  next
    case True
    obtain st r1 where st: "read_step s (n - length buf) evs = (st, r1)"
      by (cases "read_step s (n - length buf) evs")
    have le: "pending r1 \<le> pending evs"
      using st by (rule read_step_pending_le)
    have unf: "(case st of
                  Data bs \<Rightarrow>
                    (if cap < length buf + length bs then Inl OutOfBounds
                     else read_len_loop s cap n (buf @ bs) r1)
                | Continue \<Rightarrow> read_len_loop s cap n buf r1
                | Failure \<Rightarrow> Inr (None, r1) | Spin \<Rightarrow> Inl NoReturn) = Inr (x, r)"
      using "1.prems" True st by (simp add: read_len_loop.simps [of s cap n buf evs])
    show ?thesis
    proof (cases st)
      case (Data bs)
      with "1.IH"(1) [OF True st [symmetric]] unf le show ?thesis
        by (simp split: if_splits)
    next
      case Continue
      with "1.IH"(2) [OF True st [symmetric]] unf le show ?thesis by simp
    next
      case Failure
      with unf le show ?thesis by simp
    next
      case Spin
      with unf show ?thesis by simp
    qed
  qed
qed

lemma read_until_loop_pending:
  "read_until_loop s e jk bl0 bl buf evs = Inr (Some x, bl', r) \<Longrightarrow> pending r < pending evs"
proof (induction s e jk bl0 bl buf evs rule: read_until_loop.induct)
  case (1 s e jk bl0 bl buf evs)
  obtain st r1 where st: "read_step s 1 evs = (st, r1)"
    by (cases "read_step s 1 evs")
  note unf = "1.prems" [unfolded read_until_loop.simps [of s e jk bl0 bl buf evs] st, simplified]
  show ?case
  proof (cases st)
    case (Data bs)
    have lt: "pending r1 < pending evs"
      using st Data read_step_Data_pending [of s 1 evs bs r1] by simp
    show ?thesis
      using "1.IH"(1) [OF st [symmetric] Data refl refl] "1.IH"(2) [OF st [symmetric] Data refl refl]
        unf Data lt
      by (simp add: Let_def split: if_splits)
  next
    case Continue
    have lt: "pending r1 < pending evs"
      using st Continue read_step_Continue_pending [of s 1 evs r1] by simp
    with "1.IH"(3) [OF st [symmetric] Continue] unf Continue show ?thesis by simp
  next
    case Failure
    with unf show ?thesis by simp
  next
    case Spin
    with unf show ?thesis by simp
  qed
qed

lemma nc_session_read_until_pending:
  "nc_session_read_until s e w = Inr (Some x, w') \<Longrightarrow> pending (w_in w') < pending (w_in w)"
  by (auto simp: nc_session_read_until_def Let_def
      split: if_splits sum.splits prod.splits option.splits dest: read_until_loop_pending)

lemma nc_session_read_len_pending:
  "nc_session_read_len s n w = Inr (x, w') \<Longrightarrow> pending (w_in w') \<le> pending (w_in w)"
  by (auto simp: nc_session_read_len_def Let_def split: if_splits sum.splits prod.splits
      dest: read_len_loop_pending)

section \<open>Receiving\<close>

text \<open>
  The loop of the chunked framing in \<^verbatim>\<open>nc_session_receive\<close>. \<open>text\<close> is the
  message so far (\<open>None\<close> while the pointer is \<^verbatim>\<open>NULL\<close>), with the size of its
  block and its length. The result is \<open>None\<close> for \<^verbatim>\<open>EXIT_FAILURE\<close>, or the
  value of \<open>text\<close> when the terminator is met.
\<close>

function v11_loop :: "nc_session \<Rightarrow> string option \<Rightarrow> nat \<Rightarrow> nat \<Rightarrow> world
    \<Rightarrow> abort + string option option \<times> world" where
  "v11_loop s text text_size total_len w =
     (case nc_session_read_until s [LF, CHR ''#''] w of
        Inl e \<Rightarrow> Inl e
      | Inr (None, w1) \<Rightarrow> Inr (None, w1)
      | Inr (Some r1, w1) \<Rightarrow>
          (case nc_session_read_until s [LF] w1 of
             Inl e \<Rightarrow> Inl e
           | Inr (None, w2) \<Rightarrow> Inr (None, w2)
           | Inr (Some (len, chunk), w2) \<Rightarrow>
               (if strcmp_eq chunk [CHR ''#'', LF] then Inr (Some text, w2)
                else
                  (let chunk_length = strtoul chunk in
                   if chunk_length = 0 then Inr (None, w2)
                   else
                     (case nc_session_read_len s chunk_length w2 of
                        Inl e \<Rightarrow> Inl e
                      | Inr (None, w3) \<Rightarrow> Inr (None, w3)
                      | Inr (Some bytes, w3) \<Rightarrow>
                          (let len1 = length bytes;
                               grow = (text_size < total_len + len1 + 1);
                               text1 = (if grow
                                        then Some (case text of None \<Rightarrow> [] | Some t \<Rightarrow> take total_len t)
                                        else text);
                               text_size1 = (if grow then total_len + len1 + 1 else text_size)
                           in case text1 of
                                None \<Rightarrow> Inl NullDeref
                              | Some t1 \<Rightarrow>
                                  (let t2 = t1 @ cstr bytes
                                   in v11_loop s (Some t2) text_size1 (length t2) w3)))))))"
  by pat_completeness auto
termination
proof (relation "measure (\<lambda>(s, text, text_size, total_len, w). pending (w_in w))", goal_cases)
  case 1
  show ?case by simp
next
  case (2 s t0 text_size total_len w x1 x2 w1 r1 x3 x4 w2 x5 len chunk cl x6 x7 w3 bytes)
  have a: "pending (w_in w1) < pending (w_in w)"
    using 2 nc_session_read_until_pending [of s _ w r1 w1] by simp
  have b: "pending (w_in w2) < pending (w_in w1)"
    using 2 nc_session_read_until_pending [of s _ w1 "(len, chunk)" w2] by simp
  have c: "pending (w_in w3) \<le> pending (w_in w2)"
    using 2 nc_session_read_len_pending [of s _ w2 "Some bytes" w3] by simp
  from a b c show ?case by simp
qed

declare v11_loop.simps [simp del]

text \<open>
  The \<^verbatim>\<open>switch\<close> on the version. For version 1.0 the store
  \<^verbatim>\<open>text[len - 1 - strlen (NC_V10_END_MSG)] = 0\<close> cuts the copy; the index is
  computed in \<^verbatim>\<open>size_t\<close>, so it wraps when \<open>len\<close> is smaller than the
  subtrahend, and the copy made by \<^verbatim>\<open>strdup\<close> has one byte more than its
  length.
\<close>

definition nc_session_receive_frame :: "nc_session \<Rightarrow> world \<Rightarrow> abort + string option option \<times> world" where
  "nc_session_receive_frame s w =
     (if version s = NETCONFV10 then
        (case nc_session_read_until s NC_V10_END_MSG w of
           Inl e \<Rightarrow> Inl e
         | Inr (None, w1) \<Rightarrow> Inr (None, w1)
         | Inr (Some (len, text), w1) \<Rightarrow>
             (if len < 1 + strlen NC_V10_END_MSG then Inl OutOfBounds
              else if length text < len - 1 - strlen NC_V10_END_MSG then Inl OutOfBounds
              else Inr (Some (Some (take (len - 1 - strlen NC_V10_END_MSG) text)), w1)))
      else if version s = NETCONFV11 then v11_loop s None 0 0 w
      else Inr (None, w))"

text \<open>
  The rest of \<^verbatim>\<open>nc_session_receive\<close>, from the parsed document: the message id
  and the type of the reply.
\<close>

definition reply_of_doc :: "xmlDoc \<Rightarrow> abort + nc_msg" where
  "reply_of_doc d =
     (case first_node d of
        None \<Rightarrow> Inl NullDeref
      | Some root \<Rightarrow>
          (let mid = (case xmlGetProp root ''message-id'' of
                        Some v \<Rightarrow> (word_of_nat (strtoull v) :: nc_msgid)
                      | None \<Rightarrow> 0)
           in if name root = ''rpc-reply'' then
                (case first_node (children root) of
                   None \<Rightarrow> Inl NullDeref
                 | Some c \<Rightarrow>
                     Inr \<lparr>doc = Some d, msgid = mid,
                          type = (if name c = ''ok'' then NC_REPLY_OK
                                  else if name c = ''rpc-error'' then NC_REPLY_ERROR
                                  else if name c = ''data'' then NC_REPLY_DATA
                                  else NC_REPLY_UNKNOWN)\<rparr>)
              else Inr \<lparr>doc = Some d, msgid = mid, type = NC_REPLY_UNKNOWN\<rparr>))"

text \<open>
  \<open>xmlReadDoc\<close> is the parser, \<open>None\<close> when it rejects the text. When it does,
  the function releases the message and the text and goes on: it releases the text a
  second time and reads the released message.
\<close>

definition nc_session_receive :: "(string \<Rightarrow> xmlDoc option) \<Rightarrow> nc_session option \<Rightarrow> world
    \<Rightarrow> abort + int \<times> nc_msg option \<times> world" where
  "nc_session_receive xmlReadDoc session w =
     (case session of
        None \<Rightarrow> Inr (EXIT_FAILURE, None, w)
      | Some s \<Rightarrow>
          (if hostname s = None then Inr (EXIT_FAILURE, None, w)
           else
             (case nc_session_receive_frame s w of
                Inl e \<Rightarrow> Inl e
              | Inr (None, w1) \<Rightarrow> Inr (EXIT_FAILURE, None, w1)
              | Inr (Some text, w1) \<Rightarrow>
                  (case (case text of None \<Rightarrow> None | Some t \<Rightarrow> xmlReadDoc t) of
                     None \<Rightarrow> (case text of None \<Rightarrow> Inl UseAfterFree | Some t \<Rightarrow> Inl DoubleFree)
                   | Some d \<Rightarrow>
                       (case reply_of_doc d of
                          Inl e \<Rightarrow> Inl e
                        | Inr m \<Rightarrow> Inr (EXIT_SUCCESS, Some m, w1))))))"

definition nc_session_recv_reply :: "(string \<Rightarrow> xmlDoc option) \<Rightarrow> nc_session option \<Rightarrow> world
    \<Rightarrow> abort + nc_msgid \<times> nc_msg option \<times> world" where
  "nc_session_recv_reply xmlReadDoc session w =
     (case nc_session_receive xmlReadDoc session w of
        Inl e \<Rightarrow> Inl e
      | Inr (ret, reply, w1) \<Rightarrow>
          (if ret \<noteq> EXIT_SUCCESS then Inr (0, reply, w1)
           else Inr (nc_reply_get_msgid reply, reply, w1)))"

section \<open>Facts about decimal numbers\<close>

lemma digit_char_cases:
  assumes "d < 10"
  shows "d \<in> {0, 1, 2, 3, 4, 5, 6, 7, 8, 9::nat}"
  using assms by auto

lemma digit_char_isdigit: "d < 10 \<Longrightarrow> isdigit (digit_char d)"
  using digit_char_cases [of d] by (auto simp: digit_char_def isdigit_def)

lemma digit_val_digit_char: "d < 10 \<Longrightarrow> digit_val (digit_char d) = d"
  using digit_char_cases [of d] by (auto simp: digit_char_def digit_val_def)

lemma isdigit_plain:
  "isdigit c \<Longrightarrow> \<not> isspace c \<and> c \<noteq> CHR ''-'' \<and> c \<noteq> CHR ''+'' \<and> c \<noteq> CHR ''#'' \<and> c \<noteq> NUL \<and> c \<noteq> CHR 0x0A"
  by (auto simp: isdigit_def isspace_def NUL_def)

lemma dec_isdigit: "c \<in> set (dec n) \<Longrightarrow> isdigit c"
proof (induction n arbitrary: c rule: dec.induct)
  case (1 n)
  show ?case
  proof (cases "n < 10")
    case True
    with "1.prems" show ?thesis by (simp add: dec.simps [of n] digit_char_isdigit)
  next
    case False
    with "1.prems" "1.IH" show ?thesis
      by (auto simp: dec.simps [of n] digit_char_isdigit)
  qed
qed

lemma dec_nonempty: "dec n \<noteq> []"
  by (simp add: dec.simps [of n])

lemma digits_val_snoc:
  "\<forall>c \<in> set xs. isdigit c \<Longrightarrow> isdigit c \<Longrightarrow>
     digits_val a (xs @ [c]) = 10 * digits_val a xs + digit_val c"
  by (induction xs arbitrary: a) auto

lemma digits_val_stop:
  "\<forall>c \<in> set xs. isdigit c \<Longrightarrow> \<not> isdigit y \<Longrightarrow> digits_val a (xs @ y # ys) = digits_val a xs"
  by (induction xs arbitrary: a) auto

lemma digits_val_dec: "digits_val 0 (dec n) = n"
proof (induction n rule: dec.induct)
  case (1 n)
  show ?case
  proof (cases "n < 10")
    case True
    then show ?thesis
      by (simp add: dec.simps [of n] digit_char_isdigit digit_val_digit_char)
  next
    case False
    have "digits_val 0 (dec (n div 10) @ [digit_char (n mod 10)]) =
        10 * digits_val 0 (dec (n div 10)) + digit_val (digit_char (n mod 10))"
      by (rule digits_val_snoc) (auto simp: dec_isdigit digit_char_isdigit)
    with False "1.IH" show ?thesis
      by (simp add: dec.simps [of n] digit_val_digit_char)
  qed
qed

lemma dropWhile_isspace_dec: "dropWhile isspace (dec n @ ys) = dec n @ ys"
proof -
  obtain c cs where d: "dec n = c # cs"
    using dec_nonempty [of n] by (cases "dec n") auto
  then have "isdigit c" using dec_isdigit [of c n] by simp
  then have "\<not> isspace c" using isdigit_plain by blast
  with d show ?thesis by simp
qed

lemma strtoul_dec_then:
  assumes "n < 2 ^ 64" and "\<not> isdigit y"
  shows "strtoul (dec n @ y # ys) = n"
proof -
  obtain c cs where d: "dec n = c # cs"
    using dec_nonempty [of n] by (cases "dec n") auto
  then have c: "isdigit c" using dec_isdigit [of c n] by simp
  have v: "digits_val 0 (dec n @ y # ys) = n"
    using digits_val_stop [of "dec n" y 0 ys] assms(2) dec_isdigit digits_val_dec by simp
  have sp: "dropWhile isspace (dec n @ y # ys) = dec n @ y # ys"
    by (rule dropWhile_isspace_dec)
  show ?thesis
    unfolding strtoul_def sp
    using c isdigit_plain [OF c] v assms(1)
    by (simp add: d Let_def ULONG_MAX_def)
qed

lemma strtoul_dec:
  assumes "n < 2 ^ 64"
  shows "strtoul (dec n) = n"
proof -
  obtain c cs where d: "dec n = c # cs"
    using dec_nonempty [of n] by (cases "dec n") auto
  then have c: "isdigit c" using dec_isdigit [of c n] by simp
  have sp: "dropWhile isspace (dec n) = dec n"
    using dropWhile_isspace_dec [of n "[]"] by simp
  show ?thesis
    unfolding strtoul_def sp
    using c isdigit_plain [OF c] digits_val_dec [of n] assms(1)
    by (simp add: d Let_def ULONG_MAX_def)
qed

lemma length_dec: "0 < k \<Longrightarrow> n < 10 ^ k \<Longrightarrow> length (dec n) \<le> k"
proof (induction n arbitrary: k rule: dec.induct)
  case (1 n)
  show ?case
  proof (cases "n < 10")
    case True
    with "1.prems" show ?thesis by (simp add: dec.simps [of n])
  next
    case False
    with "1.prems" have k: "1 < k" by (cases "k = 1") auto
    then obtain j where j: "k = Suc j" "0 < j" by (cases k) auto
    have "n div 10 < 10 ^ j" using "1.prems"(2) j by (simp add: less_mult_imp_div_less)
    with "1.IH" [OF False, of j] j have "length (dec (n div 10)) \<le> j" by simp
    with False j show ?thesis by (simp add: dec.simps [of n])
  qed
qed

lemma length_dec_64: "n < 2 ^ 64 \<Longrightarrow> length (dec n) \<le> 20"
  by (rule length_dec) simp_all

section \<open>Input streams\<close>

text \<open>
  An input delivers a byte sequence when it meets no error and its events carry
  exactly these bytes, however they are split and whatever would-block signals come
  between them. A session is readable when it has a channel or an input descriptor.
\<close>

fun io_bytes :: "io \<Rightarrow> string" where
  "io_bytes (Recv bs) = bs"
| "io_bytes Again = []"
| "io_bytes IoError = []"

definition bytes_of :: "io list \<Rightarrow> string" where
  "bytes_of evs = concat (map io_bytes evs)"

definition delivers :: "io list \<Rightarrow> string \<Rightarrow> bool" where
  "delivers evs bs = (IoError \<notin> set evs \<and> bytes_of evs = bs)"

definition readable :: "nc_session \<Rightarrow> bool" where
  "readable s = (ssh_channel s \<or> fd_input s \<noteq> - 1)"

lemma delivers_Again [simp]: "delivers (Again # evs) bs = delivers evs bs"
  by (simp add: delivers_def bytes_of_def)

lemma delivers_IoError [simp]: "\<not> delivers (IoError # evs) bs"
  by (simp add: delivers_def)

lemma delivers_Recv_Nil [simp]: "delivers (Recv [] # evs) bs = delivers evs bs"
  by (simp add: delivers_def bytes_of_def)

lemma delivers_Nil [simp]: "delivers [] bs = (bs = [])"
  by (auto simp: delivers_def bytes_of_def)

lemma delivers_Recv: "delivers (Recv xs # evs) bs = (\<exists>r. bs = xs @ r \<and> delivers evs r)"
  by (auto simp: delivers_def bytes_of_def)

lemma delivers_rest_after:
  "delivers (Recv xs # evs) bs \<Longrightarrow> delivers (rest_after n xs evs) (drop (min n (length xs)) bs)"
  by (auto simp: delivers_def bytes_of_def rest_after_def min_def)

lemma read_step_Again: "readable s \<Longrightarrow> read_step s n (Again # evs) = (Continue, evs)"
  by (auto simp: read_step_def readable_def)

lemma read_step_Recv:
  "readable s \<Longrightarrow> xs \<noteq> [] \<Longrightarrow> read_step s n (Recv xs # evs) = (Data (take n xs), rest_after n xs evs)"
  by (auto simp: read_step_def readable_def)

lemma read_step_Recv_Nil:
  "readable s \<Longrightarrow> read_step s n (Recv [] # evs) = (if ssh_channel s then Continue else Data [], evs)"
  by (auto simp: read_step_def readable_def rest_after_def)

lemma read_until_loop_next:
  assumes "readable s" and "delivers evs (b # bs)"
    and "length buf < strlen e \<or>
         \<not> strcmp_eq e (drop (length buf - strlen e) buf @ [byte_after bl0 jk (length buf)])"
    and "length buf \<noteq> bl"
  shows "\<exists>evs'. delivers evs' bs \<and>
     read_until_loop s e jk bl0 bl buf evs =
       (if length buf + 1 < strlen e then read_until_loop s e jk bl0 bl (buf @ [b]) evs'
        else if strcmp_eq e (drop (length buf + 1 - strlen e) (buf @ [b])
                  @ [byte_after bl0 jk (length buf + 1)])
          then Inr (Some (length buf + 1, cstr (buf @ [b])), bl, evs')
        else read_until_loop s e jk bl0 (if length buf + 1 = bl then 2 * bl else bl) (buf @ [b]) evs')"
  using assms(2)
proof (induction evs)
  case Nil
  then show ?case by simp
next
  case (Cons ev evs)
  show ?case
  proof (cases ev)
    case Again
    with Cons.prems have d: "delivers evs (b # bs)" by simp
    have "read_until_loop s e jk bl0 bl buf (ev # evs) = read_until_loop s e jk bl0 bl buf evs"
      using Again assms(1) by (simp add: read_until_loop.simps [of _ _ _ _ _ _ "Again # evs"] read_step_Again)
    with Cons.IH [OF d] show ?thesis by simp
  next
    case IoError
    with Cons.prems show ?thesis by simp
  next
    case (Recv xs)
    show ?thesis
    proof (cases xs)
      case Nil
      with Recv Cons.prems have d: "delivers evs (b # bs)" by simp
      have "read_until_loop s e jk bl0 bl buf (ev # evs) = read_until_loop s e jk bl0 bl buf evs"
        using Recv Nil assms(1,3,4)
        by (auto simp: read_until_loop.simps [of _ _ _ _ _ _ "Recv [] # evs"] read_step_Recv_Nil Let_def)
      with Cons.IH [OF d] show ?thesis by simp
    next
      case (Cons x xs')
      with Recv Cons.prems have b: "x = b" and d: "delivers (rest_after 1 xs evs) bs"
        using delivers_rest_after [of xs evs "b # bs" 1] by (auto simp: delivers_Recv)
      have "read_step s 1 (ev # evs) = (Data [b], rest_after 1 xs evs)"
        using Recv Cons b assms(1) by (simp add: read_step_Recv)
      then have "read_until_loop s e jk bl0 bl buf (ev # evs) =
       (if length buf + 1 < strlen e then read_until_loop s e jk bl0 bl (buf @ [b]) (rest_after 1 xs evs)
        else if strcmp_eq e (drop (length buf + 1 - strlen e) (buf @ [b])
                  @ [byte_after bl0 jk (length buf + 1)])
          then Inr (Some (length buf + 1, cstr (buf @ [b])), bl, rest_after 1 xs evs)
        else read_until_loop s e jk bl0 (if length buf + 1 = bl then 2 * bl else bl) (buf @ [b])
               (rest_after 1 xs evs))"
        by (simp add: read_until_loop.simps [of _ _ _ _ _ _ "ev # evs"] Let_def)
      with d show ?thesis by blast
    qed
  qed
qed


lemma LF_not_NUL [simp]: "LF \<noteq> NUL" "NUL \<noteq> LF"
  by (simp_all add: LF_def NUL_def)

lemma strlen_LF [simp]: "strlen [LF] = 1"
  by (simp add: strlen_def cstr_def)

lemma cstr_simps [simp]:
  "cstr [] = []"
  "cstr (c # cs) = (if c = NUL then [] else c # cstr cs)"
  by (simp_all add: cstr_def)

lemma cstr_id: "NUL \<notin> set xs \<Longrightarrow> cstr xs = xs"
  by (induction xs) auto

lemma cstr_append_NUL: "cstr (xs @ [NUL]) = cstr xs"
  by (induction xs) auto

lemma read_until_loop_marker:
  assumes "readable s" and "delivers evs (LF # CHR ''#'' # rest)" and "2 < bl0" and "2 < bl"
  shows "\<exists>evs'. delivers evs' rest \<and>
     read_until_loop s [LF, CHR ''#''] jk bl0 bl [] evs = Inr (Some (2, [LF, CHR ''#'']), bl, evs')"
proof -
  have len: "strlen [LF, CHR ''#''] = 2"
    by (simp add: strlen_def LF_def NUL_def)
  obtain evs1 where e1: "delivers evs1 (CHR ''#'' # rest)"
    and r1: "read_until_loop s [LF, CHR ''#''] jk bl0 bl [] evs =
             read_until_loop s [LF, CHR ''#''] jk bl0 bl [LF] evs1"
    using read_until_loop_next [OF assms(1,2), of "[]" "[LF, CHR ''#'']" bl0 jk bl] assms(4) len
    by auto
  obtain evs2 where e2: "delivers evs2 rest"
    and r2: "read_until_loop s [LF, CHR ''#''] jk bl0 bl [LF] evs1 =
             Inr (Some (2, [LF, CHR ''#'']), bl, evs2)"
    using read_until_loop_next [OF assms(1) e1, of "[LF]" "[LF, CHR ''#'']" bl0 jk bl] assms(3,4) len
    by (auto simp: strcmp_eq_def byte_after_def LF_def NUL_def)
  from e2 r1 r2 show ?thesis by auto
qed

lemma read_until_loop_line:
  assumes "readable s" and "delivers evs (hdr @ LF # rest)" and "LF \<notin> set hdr" and "LF \<notin> set buf"
    and "length buf + length hdr + 1 < bl0" and "bl0 \<le> bl"
  shows "\<exists>evs'. delivers evs' rest \<and>
     read_until_loop s [LF] jk bl0 bl buf evs =
       Inr (Some (length buf + length hdr + 1, cstr (buf @ hdr @ [LF])), bl, evs')"
  using assms(2-)
proof (induction hdr arbitrary: buf evs)
  case Nil
  have len: "strlen [LF] = 1"
    by simp
  have idle: "length buf < strlen [LF] \<or>
      \<not> strcmp_eq [LF] (drop (length buf - strlen [LF]) buf @ [byte_after bl0 jk (length buf)])"
  proof (cases buf rule: rev_cases)
    case Nil
    then show ?thesis by (simp add: len)
  next
    case (snoc ys y)
    with Nil.prems show ?thesis
      by (auto simp: strcmp_eq_def byte_after_def)
  qed
  from Nil.prems have d: "delivers evs (LF # rest)" and ne: "length buf \<noteq> bl" by auto
  show ?case
    using read_until_loop_next [OF assms(1) d idle ne] Nil.prems
    by (auto simp: strcmp_eq_def byte_after_def cstr_append_NUL)
next
  case (Cons h hs)
  have len: "strlen [LF] = 1"
    by simp
  have idle: "length buf < strlen [LF] \<or>
      \<not> strcmp_eq [LF] (drop (length buf - strlen [LF]) buf @ [byte_after bl0 jk (length buf)])"
  proof (cases buf rule: rev_cases)
    case Nil
    then show ?thesis by (simp add: len)
  next
    case (snoc ys y)
    with Cons.prems show ?thesis
      by (auto simp: strcmp_eq_def byte_after_def)
  qed
  from Cons.prems have d: "delivers evs (h # hs @ LF # rest)" and ne: "length buf \<noteq> bl"
    and h: "h \<noteq> LF" by auto
  obtain evs1 where e1: "delivers evs1 (hs @ LF # rest)"
    and r1: "read_until_loop s [LF] jk bl0 bl buf evs = read_until_loop s [LF] jk bl0 bl (buf @ [h]) evs1"
    using read_until_loop_next [OF assms(1) d idle ne] Cons.prems h
    by (auto simp: strcmp_eq_def byte_after_def split: if_splits)
  have "\<exists>evs'. delivers evs' rest \<and>
     read_until_loop s [LF] jk bl0 bl (buf @ [h]) evs1 =
       Inr (Some (length (buf @ [h]) + length hs + 1, cstr ((buf @ [h]) @ hs @ [LF])), bl, evs')"
    using Cons.prems h by (intro Cons.IH [OF e1]) auto
  with r1 show ?case by auto
qed

text \<open>
  The end tag ends a proper prefix of the bytes: the loop would stop there, before
  the end.
\<close>

definition ends_before :: "string \<Rightarrow> string \<Rightarrow> bool" where
  "ends_before endtag xs =
     (\<exists>j < length xs. length endtag \<le> j \<and> drop (j - length endtag) (take j xs) = endtag)"

lemma read_until_loop_first:
  assumes "readable s" and "NUL \<notin> set whole" and "NUL \<notin> set e" and "e \<noteq> []"
    and "length whole < bl0" and "bl0 \<le> bl"
    and "length e \<le> length whole" and "drop (length whole - length e) whole = e"
    and "\<not> ends_before e whole"
  shows "delivers evs (ys @ rest) \<Longrightarrow> buf @ ys = whole \<Longrightarrow> ys \<noteq> [] \<Longrightarrow>
     \<exists>evs'. delivers evs' rest \<and>
       read_until_loop s e jk bl0 bl buf evs = Inr (Some (length whole, whole), bl, evs')"
proof (induction ys arbitrary: buf evs)
  case Nil
  then show ?case by simp
next
  case (Cons y ys)
  have se: "strlen e = length e" "cstr e = e"
    using assms(3) by (simp_all add: strlen_def cstr_id)
  have lb: "length buf < length whole" using Cons.prems(2) by auto
  have nomatch: "\<And>j. j < length whole \<Longrightarrow> length e \<le> j \<Longrightarrow>
      \<not> strcmp_eq e (drop (j - strlen e) (take j whole) @ [byte_after bl0 jk j])"
  proof
    fix j assume j: "j < length whole" "length e \<le> j"
      and m: "strcmp_eq e (drop (j - strlen e) (take j whole) @ [byte_after bl0 jk j])"
    have "NUL \<notin> set (drop (j - length e) (take j whole))"
      using assms(2) by (meson in_set_dropD in_set_takeD)
    moreover have "byte_after bl0 jk j = NUL"
      using j assms(5) by (simp add: byte_after_def)
    ultimately have "cstr (drop (j - strlen e) (take j whole) @ [byte_after bl0 jk j]) =
        drop (j - length e) (take j whole)"
      by (simp add: se cstr_append_NUL cstr_id)
    with m have "drop (j - length e) (take j whole) = e"
      by (simp add: strcmp_eq_def se)
    with j assms(9) show False by (auto simp: ends_before_def)
  qed
  have buf: "buf = take (length buf) whole" using Cons.prems(2) by auto
  have idle: "length buf < strlen e \<or>
      \<not> strcmp_eq e (drop (length buf - strlen e) buf @ [byte_after bl0 jk (length buf)])"
    using nomatch [of "length buf"] lb buf by (cases "length buf < length e") (auto simp: se)
  have ne: "length buf \<noteq> bl" using lb assms(5,6) by simp
  from Cons.prems(1) have d: "delivers evs (y # (ys @ rest))" by simp
  obtain evs1 where e1: "delivers evs1 (ys @ rest)"
    and r1: "read_until_loop s e jk bl0 bl buf evs =
       (if length buf + 1 < strlen e then read_until_loop s e jk bl0 bl (buf @ [y]) evs1
        else if strcmp_eq e (drop (length buf + 1 - strlen e) (buf @ [y])
                  @ [byte_after bl0 jk (length buf + 1)])
          then Inr (Some (length buf + 1, cstr (buf @ [y])), bl, evs1)
        else read_until_loop s e jk bl0 (if length buf + 1 = bl then 2 * bl else bl) (buf @ [y]) evs1)"
    using read_until_loop_next [OF assms(1) d idle ne] by blast
  show ?case
  proof (cases "ys = []")
    case True
    with Cons.prems(2) have w: "buf @ [y] = whole" by simp
    then have l: "length buf + 1 = length whole" by (metis length_append_singleton Suc_eq_plus1)
    have c1: "\<not> length buf + 1 < strlen e"
      using l assms(7) by (simp add: se)
    have "cstr (drop (length whole - length e) whole @ [byte_after bl0 jk (length whole)]) = e"
      using assms(2,3,5,8) by (simp add: byte_after_def cstr_append_NUL cstr_id)
    then have c2: "strcmp_eq e (drop (length buf + 1 - strlen e) (buf @ [y])
        @ [byte_after bl0 jk (length buf + 1)])"
      unfolding w l se strcmp_eq_def by simp
    have "read_until_loop s e jk bl0 bl buf evs =
        Inr (Some (length buf + 1, cstr (buf @ [y])), bl, evs1)"
      using r1 c1 c2 by simp
    then have "read_until_loop s e jk bl0 bl buf evs = Inr (Some (length whole, whole), bl, evs1)"
      unfolding w l using assms(2) by (simp add: cstr_id)
    with e1 True show ?thesis by auto
  next
    case False
    have w: "(buf @ [y]) @ ys = whole" using Cons.prems(2) by simp
    then have l: "length buf + 1 < length whole" using False
      by (metis Suc_eq_plus1 length_append length_append_singleton length_greater_0_conv less_add_same_cancel1)
    have t: "buf @ [y] = take (length buf + 1) whole" using w by auto
    have "length e \<le> length buf + 1 \<Longrightarrow>
        \<not> strcmp_eq e (drop (length buf + 1 - strlen e) (buf @ [y]) @ [byte_after bl0 jk (length buf + 1)])"
      using nomatch [OF l] t by simp
    moreover have "length buf + 1 \<noteq> bl" using l assms(5,6) by simp
    ultimately have "read_until_loop s e jk bl0 bl buf evs =
        read_until_loop s e jk bl0 bl (buf @ [y]) evs1"
      using r1 by (auto simp: se)
    with Cons.IH [OF e1 w False] show ?thesis by simp
  qed
qed

lemma read_len_loop_exact:
  assumes "readable s"
    and "n < cap"
  shows "delivers evs (xs @ rest) \<Longrightarrow> length buf + length xs = n \<Longrightarrow>
     \<exists>evs'. delivers evs' rest \<and> read_len_loop s cap n buf evs = Inr (Some (buf @ xs), evs')"
proof (induction "pending evs" arbitrary: evs buf xs rule: less_induct)
  case less
  show ?case
  proof (cases "xs = []")
    case True
    with less.prems assms(2) show ?thesis
      by (auto simp: read_len_loop.simps [of s cap n buf evs])
  next
    case False
    with less.prems have lt: "length buf < n" by auto
    from False less.prems obtain ev tl where evs: "evs = ev # tl"
      by (cases evs) auto
    show ?thesis
    proof (cases ev)
      case Again
      have r: "read_len_loop s cap n buf evs = read_len_loop s cap n buf tl"
        using lt Again assms(1) unfolding evs
        by (subst read_len_loop.simps) (simp add: read_step_Again)
      have "pending tl < pending evs" by (simp add: evs Again pending_def)
      from less.hyps [OF this, of xs buf] less.prems evs Again r show ?thesis by simp
    next
      case IoError
      with less.prems evs show ?thesis by simp
    next
      case (Recv ys)
      show ?thesis
      proof (cases "ys = []")
        case True
        have r: "read_len_loop s cap n buf evs = read_len_loop s cap n buf tl"
          using lt Recv True assms unfolding evs
          by (subst read_len_loop.simps) (simp add: read_step_Recv_Nil)
        have "pending tl < pending evs" by (simp add: evs Recv pending_def)
        from less.hyps [OF this, of xs buf] less.prems evs Recv True r show ?thesis by simp
      next
        case ne: False
        define k where "k = n - length buf"
        define m where "m = min k (length ys)"
        have k: "k = length xs" "0 < k" using less.prems lt by (auto simp: k_def)
        from less.prems evs Recv obtain r where yr: "xs @ rest = ys @ r"
          by (auto simp: delivers_Recv)
        have m: "m \<le> length xs" by (simp add: m_def k)
        have my: "m \<le> length ys" by (simp add: m_def)
        have "take m (xs @ rest) = take m (ys @ r)" using yr by simp
        moreover have "take m ys = take k ys" by (simp add: m_def min_def)
        ultimately have tk: "take k ys = take m xs" using m my by simp
        have dl: "delivers (rest_after k ys tl) (drop m xs @ rest)"
          using delivers_rest_after [of ys tl "xs @ rest" k] less.prems evs Recv m
          by (simp add: m_def)
        have fits: "\<not> cap < length buf + length (take k ys)"
          using assms(2) lt by (simp add: k_def)
        have st: "read_len_loop s cap n buf evs =
            read_len_loop s cap n (buf @ take k ys) (rest_after k ys tl)"
          using lt Recv ne assms(1) fits unfolding evs
          by (subst read_len_loop.simps) (simp add: read_step_Recv k_def)
        have p: "pending (rest_after k ys tl) < pending evs"
          using pending_rest_after [of k ys tl] k by (simp add: evs Recv)
        have l: "length (buf @ take k ys) + length (drop m xs) = n"
          using less.prems m by (simp add: tk)
        from less.hyps [OF p dl l] st show ?thesis by (simp add: tk)
      qed
    qed
  qed
qed

section \<open>The chunked decoder, chunk by chunk\<close>

text \<open>
  The static buffer is ready when it has not been allocated yet, or holds at least its
  first 1024 bytes and has not been released by a failed call. A chunk on the wire is
  its header, \<^verbatim>\<open>\n#\<close>, the decimal length and \<^verbatim>\<open>\n\<close>, and then its bytes.
\<close>

definition buffer_ready :: "world \<Rightarrow> bool" where
  "buffer_ready w = (buflen w = 0 \<or> (1024 \<le> buflen w \<and> \<not> buf_freed w))"

definition chunk_frame :: "string \<Rightarrow> string" where
  "chunk_frame c = [LF, CHR ''#''] @ dec (length c) @ [LF] @ c"

definition text_inv :: "string option \<Rightarrow> nat \<Rightarrow> nat \<Rightarrow> bool" where
  "text_inv text text_size total_len =
     (case text of None \<Rightarrow> text_size = 0 \<and> total_len = 0 | Some t \<Rightarrow> total_len = length t)"

definition so_far :: "string option \<Rightarrow> string" where
  "so_far text = (case text of None \<Rightarrow> [] | Some t \<Rightarrow> t)"

lemma nc_session_read_until_marker:
  assumes "readable s" and "buffer_ready w" and "delivers (w_in w) (LF # CHR ''#'' # rest)"
  shows "\<exists>w'. buffer_ready w' \<and> delivers (w_in w') rest \<and>
     nc_session_read_until s [LF, CHR ''#''] w = Inr (Some (2, [LF, CHR ''#'']), w')"
proof -
  define bl0 where "bl0 = (if buflen w = 0 then 1024 else buflen w)"
  have bl: "2 < bl0" "1024 \<le> bl0" using assms(2) by (auto simp: bl0_def buffer_ready_def)
  obtain evs' where e: "delivers evs' rest"
    and r: "read_until_loop s [LF, CHR ''#''] (junk w) bl0 bl0 [] (w_in w) =
             Inr (Some (2, [LF, CHR ''#'']), bl0, evs')"
    using read_until_loop_marker [OF assms(1,3) bl(1) bl(1)] by blast
  have "nc_session_read_until s [LF, CHR ''#''] w =
      Inr (Some (2, [LF, CHR ''#'']), w\<lparr>w_in := evs', buflen := bl0, buf_freed := False\<rparr>)"
    using assms(2) r by (auto simp: nc_session_read_until_def buffer_ready_def bl0_def)
  moreover have "buffer_ready (w\<lparr>w_in := evs', buflen := bl0, buf_freed := False\<rparr>)"
    using bl by (simp add: buffer_ready_def)
  ultimately show ?thesis using e by auto
qed

lemma nc_session_read_until_line:
  assumes "readable s" and "buffer_ready w" and "delivers (w_in w) (hdr @ LF # rest)"
    and "LF \<notin> set hdr" and "length hdr < 1000"
  shows "\<exists>w'. buffer_ready w' \<and> delivers (w_in w') rest \<and>
     nc_session_read_until s [LF] w = Inr (Some (length hdr + 1, cstr (hdr @ [LF])), w')"
proof -
  define bl0 where "bl0 = (if buflen w = 0 then 1024 else buflen w)"
  have bl: "1024 \<le> bl0" using assms(2) by (auto simp: bl0_def buffer_ready_def)
  obtain evs' where e: "delivers evs' rest"
    and r: "read_until_loop s [LF] (junk w) bl0 bl0 [] (w_in w) =
             Inr (Some (length hdr + 1, cstr (hdr @ [LF])), bl0, evs')"
    using read_until_loop_line [OF assms(1,3,4), of "[]" bl0 bl0 "junk w"] bl assms(5) by auto
  have "nc_session_read_until s [LF] w =
      Inr (Some (length hdr + 1, cstr (hdr @ [LF])), w\<lparr>w_in := evs', buflen := bl0, buf_freed := False\<rparr>)"
    using assms(2) r by (auto simp: nc_session_read_until_def buffer_ready_def bl0_def)
  moreover have "buffer_ready (w\<lparr>w_in := evs', buflen := bl0, buf_freed := False\<rparr>)"
    using bl by (simp add: buffer_ready_def)
  ultimately show ?thesis using e by auto
qed

lemma nc_session_read_len_exact:
  assumes "readable s" and "buffer_ready w" and "delivers (w_in w) (xs @ rest)"
    and "length xs < ULONG_MAX"
  shows "\<exists>w'. buffer_ready w' \<and> delivers (w_in w') rest \<and>
     nc_session_read_len s (length xs) w = Inr (Some xs, w')"
proof -
  obtain evs' where e: "delivers evs' rest"
    and r: "read_len_loop s (length xs + 1) (length xs) [] (w_in w) = Inr (Some xs, evs')"
    using read_len_loop_exact [OF assms(1) _ assms(3), of "length xs" "length xs + 1" "[]"] by auto
  have "(length xs + 1) mod 2 ^ 64 = length xs + 1"
    using assms(4) by (intro mod_less) (simp add: ULONG_MAX_def)
  then have "nc_session_read_len s (length xs) w = Inr (Some xs, w\<lparr>w_in := evs'\<rparr>)"
    using r by (simp add: nc_session_read_len_def)
  moreover have "buffer_ready (w\<lparr>w_in := evs'\<rparr>)"
    using assms(2) by (simp add: buffer_ready_def)
  ultimately show ?thesis using e by auto
qed

text \<open>
  The largest length, for which the block has no bytes: over a file descriptor the
  call fails and leaves the input where it was, over the SSH channel the first byte
  that arrives is stored outside the block.
\<close>

lemma ULONG_MAX_wraps: "Suc ULONG_MAX mod 2 ^ 64 = 0" "0 < ULONG_MAX"
  by (simp_all add: ULONG_MAX_def)

lemma nc_session_read_len_largest_fd:
  "\<not> ssh_channel s \<Longrightarrow> fd_input s \<noteq> - 1 \<Longrightarrow> nc_session_read_len s ULONG_MAX w = Inr (None, w)"
  using ULONG_MAX_wraps by (simp add: nc_session_read_len_def)

lemma nc_session_read_len_largest_channel:
  "ssh_channel s \<Longrightarrow> w_in w = Recv (b # bs) # evs \<Longrightarrow> nc_session_read_len s ULONG_MAX w = Inl OutOfBounds"
  using ULONG_MAX_wraps
  by (simp add: nc_session_read_len_def read_len_loop.simps [of _ 0] read_step_def)

lemma dec_plain: "LF \<notin> set (dec n) \<and> NUL \<notin> set (dec n) \<and> CHR ''#'' \<notin> set (dec n)"
  using dec_isdigit [of _ n] isdigit_plain by (auto simp: LF_def)

lemma hash_not_NUL [simp]: "CHR ''#'' \<noteq> NUL"
  by (simp add: NUL_def)

lemma not_isdigit_LF: "\<not> isdigit LF"
  by (simp add: isdigit_def LF_def)

lemma v11_loop_chunk:
  assumes "readable s" and "buffer_ready w" and "delivers (w_in w) (chunk_frame c @ rest)"
    and "c \<noteq> []" and "length c < ULONG_MAX" and "text_inv text tsz tlen"
  shows "\<exists>w' tsz'. buffer_ready w' \<and> delivers (w_in w') rest \<and>
     v11_loop s text tsz tlen w =
       v11_loop s (Some (so_far text @ cstr c)) tsz' (length (so_far text @ cstr c)) w'"
proof -
  let ?n = "length c"
  have n64: "?n < 2 ^ 64"
    using assms(5) by (simp add: ULONG_MAX_def)
  have d0: "delivers (w_in w) (LF # CHR ''#'' # (dec ?n @ LF # (c @ rest)))"
    using assms(3) by (simp add: chunk_frame_def)
  obtain w1 where w1: "buffer_ready w1" "delivers (w_in w1) (dec ?n @ LF # (c @ rest))"
    and r1: "nc_session_read_until s [LF, CHR ''#''] w = Inr (Some (2, [LF, CHR ''#'']), w1)"
    using nc_session_read_until_marker [OF assms(1,2) d0] by blast
  have ld: "length (dec ?n) < 1000"
    using length_dec_64 [OF n64] by simp
  have chunk: "cstr (dec ?n @ [LF]) = dec ?n @ [LF]"
    using dec_plain [of ?n] by (intro cstr_id) auto
  obtain w2 where w2: "buffer_ready w2" "delivers (w_in w2) (c @ rest)"
    and r2: "nc_session_read_until s [LF] w1 = Inr (Some (length (dec ?n) + 1, dec ?n @ [LF]), w2)"
    using nc_session_read_until_line [OF assms(1) w1(1) w1(2) _ ld] dec_plain [of ?n] chunk
    by auto
  have ne: "\<not> strcmp_eq (dec ?n @ [LF]) [CHR ''#'', LF]"
  proof
    assume "strcmp_eq (dec ?n @ [LF]) [CHR ''#'', LF]"
    then have "dec ?n @ [LF] = [CHR ''#'', LF]"
      using chunk by (simp add: strcmp_eq_def)
    then have "dec ?n = [CHR ''#'']" by simp
    with dec_plain [of ?n] show False by simp
  qed
  have st: "strtoul (dec ?n @ [LF]) = ?n"
    using strtoul_dec_then [OF n64 not_isdigit_LF, of "[]"] by simp
  obtain w3 where w3: "buffer_ready w3" "delivers (w_in w3) rest"
    and r3: "nc_session_read_len s ?n w2 = Inr (Some c, w3)"
    using nc_session_read_len_exact [OF assms(1) w2 assms(5)] by blast
  have "v11_loop s text tsz tlen w =
      v11_loop s (Some (so_far text @ cstr c))
        (if tsz < tlen + ?n + 1 then tlen + ?n + 1 else tsz) (length (so_far text @ cstr c)) w3"
    using assms(4,6)
    by (subst v11_loop.simps)
      (auto simp: r1 r2 r3 ne st Let_def text_inv_def so_far_def split: option.splits)
  with w3 show ?thesis by blast
qed

lemma v11_loop_chunks:
  assumes "readable s"
  shows "buffer_ready w \<Longrightarrow> delivers (w_in w) (concat (map chunk_frame cs) @ rest) \<Longrightarrow>
     \<forall>c \<in> set cs. c \<noteq> [] \<and> length c < ULONG_MAX \<Longrightarrow> text_inv acc tsz tlen \<Longrightarrow>
     \<exists>w' tsz' tlen'. buffer_ready w' \<and> delivers (w_in w') rest \<and>
        v11_loop s acc tsz tlen w =
          v11_loop s (if cs = [] then acc else Some (so_far acc @ concat (map cstr cs))) tsz' tlen' w'"
proof (induction cs arbitrary: w acc tsz tlen)
  case Nil
  then show ?case by auto
next
  case (Cons c cs)
  from Cons.prems have d: "delivers (w_in w) (chunk_frame c @ (concat (map chunk_frame cs) @ rest))"
    and c: "c \<noteq> []" "length c < ULONG_MAX" by auto
  obtain w1 tsz1 where w1: "buffer_ready w1" "delivers (w_in w1) (concat (map chunk_frame cs) @ rest)"
    and r1: "v11_loop s acc tsz tlen w =
       v11_loop s (Some (so_far acc @ cstr c)) tsz1 (length (so_far acc @ cstr c)) w1"
    using v11_loop_chunk [OF assms Cons.prems(1) d c Cons.prems(4)] by blast
  have inv: "text_inv (Some (so_far acc @ cstr c)) tsz1 (length (so_far acc @ cstr c))"
    by (simp add: text_inv_def)
  from Cons.prems have rest: "\<forall>c \<in> set cs. c \<noteq> [] \<and> length c < ULONG_MAX" by simp
  obtain w2 tsz2 tlen2 where w2: "buffer_ready w2" "delivers (w_in w2) rest"
    and r2: "v11_loop s (Some (so_far acc @ cstr c)) tsz1 (length (so_far acc @ cstr c)) w1 =
       v11_loop s (if cs = [] then Some (so_far acc @ cstr c)
                   else Some (so_far (Some (so_far acc @ cstr c)) @ concat (map cstr cs))) tsz2 tlen2 w2"
    using Cons.IH [OF w1 rest inv] by blast
  have "v11_loop s acc tsz tlen w =
      v11_loop s (Some (so_far acc @ concat (map cstr (c # cs)))) tsz2 tlen2 w2"
    using r1 r2 by (simp add: so_far_def)
  with w2 show ?case by auto
qed

lemma v11_loop_end:
  assumes "readable s" and "buffer_ready w" and "delivers (w_in w) (NC_V11_END_MSG @ rest)"
  shows "\<exists>w'. buffer_ready w' \<and> delivers (w_in w') rest \<and>
     v11_loop s acc tsz tlen w = Inr (Some acc, w')"
proof -
  have d0: "delivers (w_in w) (LF # CHR ''#'' # ([CHR ''#''] @ LF # rest))"
    using assms(3) by (simp add: NC_V11_END_MSG_def)
  obtain w1 where w1: "buffer_ready w1" "delivers (w_in w1) ([CHR ''#''] @ LF # rest)"
    and r1: "nc_session_read_until s [LF, CHR ''#''] w = Inr (Some (2, [LF, CHR ''#'']), w1)"
    using nc_session_read_until_marker [OF assms(1,2) d0] by blast
  have nl: "LF \<notin> set [CHR ''#'']" by (simp add: LF_def)
  obtain w2 where w2: "buffer_ready w2" "delivers (w_in w2) rest"
    and r2: "nc_session_read_until s [LF] w1 =
       Inr (Some (length [CHR ''#''] + 1, cstr ([CHR ''#''] @ [LF])), w2)"
    using nc_session_read_until_line [OF assms(1) w1 nl] by auto
  have "v11_loop s acc tsz tlen w = Inr (Some acc, w2)"
    by (subst v11_loop.simps) (simp add: r1 r2 strcmp_eq_def)
  with w2 show ?thesis by blast
qed

lemma v11_loop_no_length:
  assumes "readable s" and "buffer_ready w"
    and "delivers (w_in w) ([LF, CHR ''#''] @ hdr @ [LF] @ rest)"
    and "LF \<notin> set hdr" and "length hdr < 1000"
    and "\<not> strcmp_eq (cstr (hdr @ [LF])) [CHR ''#'', LF]"
    and "strtoul (cstr (hdr @ [LF])) = 0"
  shows "\<exists>w'. v11_loop s acc tsz tlen w = Inr (None, w')"
proof -
  have d0: "delivers (w_in w) (LF # CHR ''#'' # (hdr @ LF # rest))"
    using assms(3) by simp
  obtain w1 where w1: "buffer_ready w1" "delivers (w_in w1) (hdr @ LF # rest)"
    and r1: "nc_session_read_until s [LF, CHR ''#''] w = Inr (Some (2, [LF, CHR ''#'']), w1)"
    using nc_session_read_until_marker [OF assms(1,2) d0] by blast
  obtain w2 where r2: "nc_session_read_until s [LF] w1 =
       Inr (Some (length hdr + 1, cstr (hdr @ [LF])), w2)"
    using nc_session_read_until_line [OF assms(1) w1 assms(4,5)] by auto
  have "v11_loop s acc tsz tlen w = Inr (None, w2)"
    using assms(6,7) by (subst v11_loop.simps) (simp add: r1 r2)
  then show ?thesis by blast
qed

lemma concat_cstr: "\<forall>c \<in> set cs. NUL \<notin> set c \<Longrightarrow> concat (map cstr cs) = concat cs"
  by (induction cs) (auto simp: cstr_id)

section \<open>Drivers and sample states\<close>

text \<open>
  A caller that applies capability-set operations one after another to the set it was
  given, as long as no call has left defined behaviour.
\<close>

datatype cp_op = Add string | Remove string

fun apply_op :: "nc_cpblts \<Rightarrow> cp_op \<Rightarrow> abort + nc_cpblts" where
  "apply_op c (Add s) =
     (case nc_cpblts_add (Some c) (Some s) of Inl e \<Rightarrow> Inl e | Inr (r, c') \<Rightarrow> deref c')"
| "apply_op c (Remove s) =
     (case nc_cpblts_remove (Some c) (Some s) of Inl e \<Rightarrow> Inl e | Inr (r, c') \<Rightarrow> deref c')"

fun run_ops :: "abort + nc_cpblts \<Rightarrow> cp_op list \<Rightarrow> abort + nc_cpblts" where
  "run_ops r [] = r"
| "run_ops r (x # xs) =
     (case r of Inl e \<Rightarrow> Inl e | Inr c \<Rightarrow> run_ops (apply_op c x) xs)"

definition counts :: "abort + nc_cpblts \<Rightarrow> abort + int \<times> int" where
  "counts r = (case r of Inl e \<Rightarrow> Inl e | Inr c \<Rightarrow> Inr (items c, list_size c))"

definition slot_at_items :: "abort + nc_cpblts \<Rightarrow> abort + slot" where
  "slot_at_items r =
     (case r of
        Inl e \<Rightarrow> Inl e
      | Inr c \<Rightarrow> (case list c of None \<Rightarrow> Inl NullDeref | Some l \<Rightarrow> load l (items c)))"

text \<open>
  A session over a pair of file descriptors, and a world whose static buffer has not
  been allocated yet.
\<close>

definition session_fd :: "int \<Rightarrow> nc_session" where
  "session_fd v =
     \<lparr>session_id = ''1'', fd_input = 0, fd_output = 1, libssh2_socket = - 1,
      ssh_session = False, ssh_channel = False, hostname = Some ''host'', username = Some ''user'',
      version = v, capabilities = None, msgid = 1\<rparr>"

definition world_of :: "io list \<Rightarrow> world" where
  "world_of evs = \<lparr>w_in = evs, w_out = [], buflen = 0, buf_freed = False, junk = (\<lambda>i. NUL)\<rparr>"

text \<open>
  A stand-in for the XML parser in the examples: it knows one document, the reply
  \<^verbatim>\<open><rpc-reply message-id="7"><ok/></rpc-reply>\<close>, and rejects every other text.
\<close>

definition reply_ok_text :: string where
  "reply_ok_text = ''<rpc-reply message-id='' @ [CHR 0x22] @ ''7'' @ [CHR 0x22] @ ''><ok/></rpc-reply>''"

definition reply_ok_doc :: xmlDoc where
  "reply_ok_doc = [Node ''rpc-reply'' [(''message-id'', ''7'')] [] [Node ''ok'' [] [] []]]"

definition parse_reply_ok :: "string \<Rightarrow> xmlDoc option" where
  "parse_reply_ok t = (if t = reply_ok_text then Some reply_ok_doc else None)"

text \<open>
  A second stand-in, for the reply \<^verbatim>\<open><rpc-reply message-id="5"/>\<close>, which has no
  child element.
\<close>

definition empty_reply_text :: string where
  "empty_reply_text = ''<rpc-reply message-id='' @ [CHR 0x22] @ ''5'' @ [CHR 0x22] @ ''/>''"

definition empty_reply_doc :: xmlDoc where
  "empty_reply_doc = [Node ''rpc-reply'' [(''message-id'', ''5'')] [] []]"

definition parse_empty_reply :: "string \<Rightarrow> xmlDoc option" where
  "parse_empty_reply t = (if t = empty_reply_text then Some empty_reply_doc else None)"

lemmas eval_defs =
  session_fd_def world_of_def nc_session_receive_frame_def nc_session_read_until_def
  nc_session_read_len_def v11_loop.simps read_len_loop.simps read_until_loop.simps read_step_def
  rest_after_def strlen_def strcmp_eq_def byte_after_def Let_def NUL_def LF_def NETCONFV10_def
  NETCONFV11_def NC_V10_END_MSG_def NC_V11_END_MSG_def strtoul_def isspace_def isdigit_def
  digit_val_def ULONG_MAX_def chunk_frame_def dec.simps digit_char_def

section \<open>Capability set: the claims\<close>

text \<open>
  Claim C4 says that \<open>items \<le> list_size\<close> holds after every sequence of new, add and
  remove. \<^verbatim>\<open>nc_cpblts_remove\<close> lowers \<open>list_size\<close> where it should lower
  \<open>items\<close>: from the empty set, eight additions and three removals of one URI, all
  of them within the ten slots allocated, end with eight items in a capacity of seven.
\<close>

theorem cpblts_items_exceed_list_size:
  "counts (run_ops (nc_cpblts_new mem None)
     (replicate 8 (Add ''urn:a'') @ replicate 3 (Remove ''urn:a''))) = Inr (8, 7)"
  by (simp add: counts_def nc_cpblts_new_def nc_cpblts_add_def nc_cpblts_remove_def deref_def
      store_def load_def in_block_def sizeof_ptr_def EXIT_SUCCESS_def EXIT_FAILURE_def
      numeral_eq_Suc)

text \<open>
  After one addition to a new set the slot at index \<open>items\<close> still holds what the
  allocation left there: the addition clears the slot after it.
\<close>

lemma cpblts_add_slot_at_items:
  "slot_at_items (run_ops (nc_cpblts_new mem None) [Add u]) = Inr (mem 1)"
  by (simp add: slot_at_items_def nc_cpblts_new_def nc_cpblts_add_def deref_def
      store_def load_def in_block_def sizeof_ptr_def EXIT_SUCCESS_def EXIT_FAILURE_def)

text \<open>
  Claim C5 says that after creation, add and remove the slot at index \<open>items\<close> holds
  the null terminator. \<^verbatim>\<open>nc_cpblts_add\<close> increments \<open>items\<close> and then stores
  \<^verbatim>\<open>NULL\<close> at \<open>items + 1\<close>: on a new set whose memory was not zero, the slot
  at \<open>items\<close> is indeterminate after the first addition.
\<close>

theorem cpblts_add_misses_terminator:
  "slot_at_items (run_ops (nc_cpblts_new (\<lambda>i. Garbage) None) [Add ''urn:a'']) = Inr Garbage"
  by (simp add: slot_at_items_def nc_cpblts_new_def nc_cpblts_add_def deref_def
      store_def load_def in_block_def sizeof_ptr_def EXIT_SUCCESS_def EXIT_FAILURE_def)

text \<open>
  The ten slots of a new set take eight additions. The ninth stores \<^verbatim>\<open>NULL\<close> at
  index 10, behind the block. The creation of a set from nine strings does the same in
  the tenth pass of its loop, after it has asked \<^verbatim>\<open>realloc\<close> for twenty bytes.
\<close>

lemma cpblts_ninth_add_leaves_block:
  "run_ops (nc_cpblts_new mem None) (replicate 9 (Add u)) = Inl OutOfBounds"
  by (simp add: nc_cpblts_new_def nc_cpblts_add_def deref_def
      store_def load_def in_block_def sizeof_ptr_def EXIT_SUCCESS_def EXIT_FAILURE_def
      numeral_eq_Suc)

lemma cpblts_new_of_nine_leaves_block:
  "nc_cpblts_new mem (Some (replicate 9 u)) = Inl OutOfBounds"
  by (simp add: nc_cpblts_new_def list_at_def realloc_def
      store_def load_def in_block_def sizeof_ptr_def numeral_eq_Suc)

text \<open>
  Claim C10: on a \<^verbatim>\<open>NULL\<close> session or capability set the accessors return
  \<^verbatim>\<open>NULL\<close> or \<open>-1\<close>, the iterator returns \<^verbatim>\<open>NULL\<close>,
  \<^verbatim>\<open>nc_cpblts_free\<close> releases nothing and \<^verbatim>\<open>nc_cpblts_iter_start\<close> changes
  nothing; add and remove refuse. Each call returns: none ends in a dereference of the
  null pointer.
\<close>

theorem null_arguments_return:
  "nc_session_get_id None = Inr None \<and>
   nc_session_get_cpblts None = Inr None \<and>
   nc_session_get_version None = Inr (- 1) \<and>
   nc_session_get_eventfd None = Inr (- 1) \<and>
   nc_cpblts_iter_next None = Inr (None, None) \<and>
   nc_cpblts_free None = Inr [] \<and>
   nc_cpblts_iter_start None = None \<and>
   nc_cpblts_add None u = Inr (EXIT_FAILURE, None) \<and>
   nc_cpblts_remove None u = Inr (EXIT_FAILURE, None)"
  by (simp add: nc_session_get_id_def nc_session_get_cpblts_def nc_session_get_version_def
      nc_session_get_eventfd_def nc_cpblts_iter_next_def nc_cpblts_free_def
      nc_cpblts_iter_start_def nc_cpblts_add_def nc_cpblts_remove_def)

section \<open>Message ids: the claims\<close>

text \<open>
  Whenever an \<^verbatim>\<open>rpc\<close> is sent with success, the id written into the message is
  the counter before the call and the id returned is the counter after it.
\<close>

lemma send_rpc_success:
  assumes "hostname s \<noteq> None" and "ssh_channel s \<or> fd_output s \<noteq> - 1"
    and "unat (msgid s) < 10 ^ 15"
  shows "stamp_node s (Node ''rpc'' ps ns cs) (Node ''rpc'' ps ns cs) =
       Inr (s\<lparr>msgid := msgid s + 1\<rparr>,
            xmlSetProp (Node ''rpc'' ps ns cs) ''message-id'' (dec (unat (msgid s)))) \<and>
     (\<exists>w'. nc_session_send_rpc dump (Some s)
       (Some \<lparr>doc = Some (Node ''rpc'' ps ns cs # others), msgid = i, type = ty\<rparr>) w =
     Inr (msgid s + 1, Some (s\<lparr>msgid := msgid s + 1\<rparr>), w'))"
proof -
  have "length (dec (unat (msgid s))) \<le> 15"
    using assms(3) by (intro length_dec) simp_all
  then show ?thesis
    using assms(1,2)
    by (auto simp: nc_session_send_rpc_def nc_session_send_def stamp_node_def deref_def first_node_def
      nc_msg_dup_def Let_def EXIT_SUCCESS_def EXIT_FAILURE_def)
qed

text \<open>
  Claim C1 says that a successful \<^verbatim>\<open>nc_session_send_rpc\<close> of an \<^verbatim>\<open>rpc\<close>
  returns the id it stamped, 1 for the first send. The id is stamped with
  \<^verbatim>\<open>session->msgid++\<close> and the function returns \<^verbatim>\<open>session->msgid\<close>: with the
  counter at 1, the message written carries \<^verbatim>\<open>message-id="1"\<close> and the call
  returns 2.
\<close>

theorem send_rpc_returns_id_after_the_stamped_one:
  "nc_session_send_rpc dump
     (Some (s\<lparr>hostname := Some h, fd_output := 1, version := NETCONFV10, msgid := 1\<rparr>))
     (Some \<lparr>doc = Some [Node ''rpc'' [] [] cs], msgid = 0, type = NC_REPLY_UNKNOWN\<rparr>) w =
   Inr (2,
     Some (s\<lparr>hostname := Some h, fd_output := 1, version := NETCONFV10, msgid := 2\<rparr>),
     w\<lparr>w_out := w_out w
        @ cstr (dump [Node ''rpc'' [(''message-id'', ''1'')] [(None, NC_NS_BASE10)] cs])
        @ NC_V10_END_MSG\<rparr>)"
  by (simp add: nc_session_send_rpc_def nc_session_send_def stamp_node_def deref_def first_node_def
      nc_msg_dup_def xmlSetProp_def xmlNewNs_def NC_WRITE_def Let_def dec.simps digit_char_def
      NETCONFV10_def NETCONFV11_def EXIT_SUCCESS_def EXIT_FAILURE_def cstr_def NC_V10_END_MSG_def NUL_def)

text \<open>
  A failed send of an \<^verbatim>\<open>rpc\<close> leaves the session as it was: the counter is
  incremented for the stamp and decremented on the failure.
\<close>

lemma failed_send_of_rpc_keeps_counter:
  assumes "hostname s \<noteq> None" and "\<not> ssh_channel s" and "fd_output s = - 1"
    and "unat (msgid s) < 10 ^ 15"
  shows "nc_session_send_rpc dump (Some s)
       (Some \<lparr>doc = Some (Node ''rpc'' ps ns cs # others), msgid = i, type = ty\<rparr>) w =
     Inr (0, Some s, w)"
proof -
  have "length (dec (unat (msgid s))) \<le> 15"
    using assms(4) by (intro length_dec) simp_all
  then show ?thesis
    using assms(1-3)
    by (auto simp: nc_session_send_rpc_def nc_session_send_def stamp_node_def deref_def first_node_def
      nc_msg_dup_def Let_def EXIT_SUCCESS_def EXIT_FAILURE_def)
qed

text \<open>
  Claim C3 says that a failed \<^verbatim>\<open>nc_session_send_rpc\<close> leaves the counter where it
  was, whatever the top-level element. The decrement on failure is unconditional, the
  increment is made for an \<^verbatim>\<open>rpc\<close> only: a \<^verbatim>\<open>hello\<close> that cannot be sent
  (no channel, no output descriptor) takes the counter from 5 to 4.
\<close>

theorem failed_send_of_hello_lowers_counter:
  "nc_session_send_rpc dump
     (Some (s\<lparr>hostname := Some h, fd_output := - 1, ssh_channel := False, msgid := 5\<rparr>))
     (Some \<lparr>doc = Some [Node ''hello'' ps ns cs], msgid = 0, type = NC_REPLY_UNKNOWN\<rparr>) w =
   Inr (0,
     Some (s\<lparr>hostname := Some h, fd_output := - 1, ssh_channel := False, msgid := 4\<rparr>), w)"
  by (simp add: nc_session_send_rpc_def nc_session_send_def stamp_node_def deref_def first_node_def
      nc_msg_dup_def xmlNewNs_def Let_def EXIT_SUCCESS_def EXIT_FAILURE_def)

section \<open>Version 1.0 framing: the claims\<close>

text \<open>
  On a payload that is not empty, holds no zero byte and no earlier terminator and fits
  the read buffer with its terminator, the version 1.0 decoder returns the payload
  without its last byte.
\<close>

lemma v10_decoder_returns_all_but_last:
  assumes "readable s" and "version s = NETCONFV10" and "buffer_ready w"
    and "delivers (w_in w) (p @ NC_V10_END_MSG @ rest)"
    and "p \<noteq> []" and "NUL \<notin> set p" and "length p + 6 < 1024"
    and "\<not> ends_before NC_V10_END_MSG (p @ NC_V10_END_MSG)"
  shows "\<exists>w'. nc_session_receive_frame s w = Inr (Some (Some (butlast p)), w') \<and>
     delivers (w_in w') rest"
proof -
  let ?e = "NC_V10_END_MSG"
  let ?whole = "p @ ?e"
  define bl0 where "bl0 = (if buflen w = 0 then 1024 else buflen w)"
  have bl: "length ?whole < bl0"
    using assms(3,7) by (auto simp: bl0_def buffer_ready_def NC_V10_END_MSG_def)
  have e: "NUL \<notin> set ?e" "?e \<noteq> []" "length ?e = 6" "strlen ?e = 6"
    by (simp_all add: NC_V10_END_MSG_def NUL_def strlen_def cstr_def)
  have d: "delivers (w_in w) (?whole @ rest)" using assms(4) by simp
  obtain evs' where e1: "delivers evs' rest"
    and r: "read_until_loop s ?e (junk w) bl0 bl0 [] (w_in w) =
              Inr (Some (length ?whole, ?whole), bl0, evs')"
    using read_until_loop_first [OF assms(1) _ e(1,2) bl _ _ _ assms(8) d, of bl0 "[]" "junk w"]
      assms(5,6) e(1)
    by auto
  have "nc_session_read_until s ?e w =
      Inr (Some (length ?whole, ?whole), w\<lparr>w_in := evs', buflen := bl0, buf_freed := False\<rparr>)"
    using assms(3) r by (auto simp: nc_session_read_until_def buffer_ready_def bl0_def)
  moreover have "take (length p - 1) (p @ ?e) = butlast p"
    using assms(5) by (simp add: butlast_conv_take)
  ultimately have "nc_session_receive_frame s w =
      Inr (Some (Some (butlast p)), w\<lparr>w_in := evs', buflen := bl0, buf_freed := False\<rparr>)"
    using assms(2,5) by (simp add: nc_session_receive_frame_def e)
  with e1 show ?thesis by auto
qed

text \<open>
  Claim C2 says that the version 1.0 decoder returns the payload the encoder framed,
  with the terminator removed and no byte lost. The decoder cuts the text at
  \<open>len - 1 - 6\<close>, one byte before the terminator: the payload \<^verbatim>\<open><a/>\<close> goes
  out as \<^verbatim>\<open><a/>]]>]]>\<close> and comes back as \<^verbatim>\<open><a/\<close>.
\<close>

theorem v10_roundtrip_loses_last_byte:
  "nc_session_send (\<lambda>d. ''<a/>'') (Some (s\<lparr>version := NETCONFV10, ssh_channel := True\<rparr>))
     (Some \<lparr>doc = Some d, msgid = 0, type = NC_REPLY_UNKNOWN\<rparr>) (w\<lparr>w_out := []\<rparr>) =
   Inr (EXIT_SUCCESS, w\<lparr>w_out := ''<a/>]]>]]>''\<rparr>) \<and>
   nc_session_receive_frame (s\<lparr>version := NETCONFV10, ssh_channel := True\<rparr>)
     (w\<lparr>w_in := [Recv ''<a/>]]>]]>''], buflen := 0, buf_freed := False\<rparr>) =
   Inr (Some (Some ''<a/''), w\<lparr>w_in := [], buflen := 1024, buf_freed := False\<rparr>)"
  by (simp add: nc_session_send_def nc_session_receive_frame_def nc_session_read_until_def
      read_until_loop.simps read_step_def rest_after_def strlen_def strcmp_eq_def byte_after_def
      deref_def NC_WRITE_def Let_def cstr_def NUL_def
      NETCONFV10_def NETCONFV11_def EXIT_SUCCESS_def EXIT_FAILURE_def NC_V10_END_MSG_def)

section \<open>Parsing the received text: the claims\<close>

text \<open>
  Claim C6 says that a framed message that is not XML makes
  \<^verbatim>\<open>nc_session_recv_reply\<close> return its failure value. When the parser returns
  \<^verbatim>\<open>NULL\<close> the function releases the message and the text and does not return:
  it releases the text again. No value is returned to the caller.
\<close>

theorem recv_reply_goes_on_after_parse_failure:
  assumes "hostname s \<noteq> None"
    and "nc_session_receive_frame s w = Inr (Some (Some t), w1)"
    and "xmlReadDoc t = None"
  shows "nc_session_recv_reply xmlReadDoc (Some s) w = Inl DoubleFree"
  using assms by (simp add: nc_session_recv_reply_def nc_session_receive_def)

lemma frame_of_unparsable_text:
  "nc_session_receive_frame (session_fd NETCONFV10) (world_of [Recv ''<<<<]]>]]>'']) =
     Inr (Some (Some ''<<<''), (world_of [])\<lparr>buflen := 1024\<rparr>)"
  by (simp add: session_fd_def world_of_def nc_session_receive_frame_def nc_session_read_until_def
      read_until_loop.simps read_step_def rest_after_def strlen_def strcmp_eq_def byte_after_def
      Let_def cstr_def NUL_def NETCONFV10_def NETCONFV11_def NC_V10_END_MSG_def)

theorem recv_reply_goes_on_after_parse_failure_witness:
  "nc_session_recv_reply (\<lambda>t. None) (Some (session_fd NETCONFV10))
     (world_of [Recv ''<<<<]]>]]>'']) = Inl DoubleFree"
  using recv_reply_goes_on_after_parse_failure [of "session_fd NETCONFV10"
      "world_of [Recv ''<<<<]]>]]>'']" "''<<<''" "(world_of [])\<lparr>buflen := 1024\<rparr>" "\<lambda>t. None"]
    frame_of_unparsable_text
  by (simp add: session_fd_def)

text \<open>
  A message that was received and parsed is classified by its first node and that
  node's first child, when there is one, and its id is the converted
  \<^verbatim>\<open>message-id\<close> attribute of the first node, or 0.
\<close>

lemma recv_reply_classifies:
  assumes "hostname s \<noteq> None"
    and "nc_session_receive_frame s w = Inr (Some (Some t), w1)"
    and "xmlReadDoc t = Some d"
    and "first_node d = Some root"
    and "name root = ''rpc-reply'' \<longrightarrow> first_node (children root) = Some c"
  shows "\<exists>m. nc_session_recv_reply xmlReadDoc (Some s) w = Inr (nc_msg.msgid m, Some m, w1) \<and>
     doc m = Some d \<and>
     (name root = ''rpc-reply'' \<and> name c = ''ok'' \<longrightarrow> type m = NC_REPLY_OK) \<and>
     (name root = ''rpc-reply'' \<and> name c = ''rpc-error'' \<longrightarrow> type m = NC_REPLY_ERROR) \<and>
     (name root = ''rpc-reply'' \<and> name c = ''data'' \<longrightarrow> type m = NC_REPLY_DATA) \<and>
     (name root = ''rpc-reply'' \<and> name c \<notin> {''ok'', ''rpc-error'', ''data''}
        \<longrightarrow> type m = NC_REPLY_UNKNOWN) \<and>
     (name root \<noteq> ''rpc-reply'' \<longrightarrow> type m = NC_REPLY_UNKNOWN) \<and>
     (xmlGetProp root ''message-id'' = None \<longrightarrow> nc_msg.msgid m = 0) \<and>
     (\<forall>v. xmlGetProp root ''message-id'' = Some v \<longrightarrow> nc_msg.msgid m = word_of_nat (strtoull v)) \<and>
     (\<forall>n. n < 2 ^ 64 \<and> xmlGetProp root ''message-id'' = Some (dec n)
        \<longrightarrow> nc_msg.msgid m = word_of_nat n)"
proof (cases "name root = ''rpc-reply''")
  case True
  with assms(5) have c: "first_node (children root) = Some c" by simp
  show ?thesis
    using assms(1-4) True c
    by (auto simp: nc_session_recv_reply_def nc_session_receive_def reply_of_doc_def
        nc_reply_get_msgid_def EXIT_SUCCESS_def EXIT_FAILURE_def Let_def strtoull_def strtoul_dec
        split: option.splits)
next
  case False
  show ?thesis
    using assms(1-4) False
    by (auto simp: nc_session_recv_reply_def nc_session_receive_def reply_of_doc_def
        nc_reply_get_msgid_def EXIT_SUCCESS_def EXIT_FAILURE_def Let_def strtoull_def strtoul_dec
        split: option.splits)
qed

text \<open>
  Claim C9 says that every message that was received and parsed is classified, an
  \<^verbatim>\<open>rpc-reply\<close> by its first child and anything else as unknown, and that the
  call returns the message id of the root. For an \<^verbatim>\<open>rpc-reply\<close> the code reads
  the name of the first child without looking whether there is one: on a reply with
  no child element it dereferences the null pointer and returns neither a type nor
  an id.
\<close>

theorem recv_reply_of_empty_rpc_reply:
  assumes "hostname s \<noteq> None"
    and "nc_session_receive_frame s w = Inr (Some (Some t), w1)"
    and "xmlReadDoc t = Some (Node ''rpc-reply'' ps ns [] # others)"
  shows "nc_session_recv_reply xmlReadDoc (Some s) w = Inl NullDeref"
  using assms
  by (simp add: nc_session_recv_reply_def nc_session_receive_def reply_of_doc_def first_node_def Let_def)

lemma frame_empty_reply:
  "nc_session_receive_frame (session_fd NETCONFV11)
     (world_of [Recv ([LF, CHR ''#'', CHR ''2'', CHR ''7'', LF] @ empty_reply_text @ NC_V11_END_MSG)]) =
   Inr (Some (Some empty_reply_text), (world_of [])\<lparr>buflen := 1024\<rparr>)"
  by (simp add: eval_defs empty_reply_text_def)

theorem recv_reply_of_empty_rpc_reply_witness:
  "nc_session_recv_reply parse_empty_reply (Some (session_fd NETCONFV11))
     (world_of [Recv ([LF, CHR ''#'', CHR ''2'', CHR ''7'', LF] @ empty_reply_text @ NC_V11_END_MSG)]) = Inl NullDeref"
  using recv_reply_of_empty_rpc_reply [of "session_fd NETCONFV11"
      "world_of [Recv ([LF, CHR ''#'', CHR ''2'', CHR ''7'', LF] @ empty_reply_text @ NC_V11_END_MSG)]" empty_reply_text
      "(world_of [])\<lparr>buflen := 1024\<rparr>" parse_empty_reply "[(''message-id'', ''5'')]" "[]" "[]"]
    frame_empty_reply
  by (simp add: session_fd_def parse_empty_reply_def empty_reply_doc_def)

section \<open>Version 1.1 framing: the claims\<close>

text \<open>
  Two kinds of text for which \<^verbatim>\<open>strtoul\<close> yields 0: a text whose first byte is
  neither white space, nor a sign, nor a digit, and a single \<^verbatim>\<open>0\<close> followed by a
  byte that is not a digit.
\<close>

lemma strtoul_no_number:
  "\<not> isspace c \<Longrightarrow> \<not> isdigit c \<Longrightarrow> c \<noteq> CHR ''-'' \<Longrightarrow> c \<noteq> CHR ''+'' \<Longrightarrow> strtoul (c # r) = 0"
  by (simp add: strtoul_def ULONG_MAX_def)

lemma strtoul_zero:
  "\<not> isdigit c \<Longrightarrow> strtoul (CHR ''0'' # c # r) = 0"
  by (simp add: strtoul_def ULONG_MAX_def isspace_def isdigit_def digit_val_def)

text \<open>
  Claim C7, amended: when \<^verbatim>\<open>strtoul\<close> yields 0 for the header line of a chunk,
  the decoder fails and \<^verbatim>\<open>nc_session_recv_reply\<close> returns 0 and no message.

  The session has a host name and a substrate to read from and speaks version 1.1; the
  read buffer of \<^verbatim>\<open>nc_session_read_until\<close> is not yet allocated, or has at least
  1024 bytes and was not released by a failed call. The input delivers zero or more
  well-formed chunks, each of them non-empty and shorter than \<open>2 ^ 64 - 1\<close> bytes,
  then a line feed and \<^verbatim>\<open>#\<close>, a field \<open>hdr\<close> of fewer than 1000 bytes without
  a line feed, and a line feed. The header line is \<open>hdr\<close> and its line feed, read as a
  C string; it is not the terminator line, \<^verbatim>\<open>#\<close> and a line feed, and the
  hypothesis on it is exactly that \<^verbatim>\<open>strtoul\<close> yields 0 for it. Nothing is said
  of a header line for which \<^verbatim>\<open>strtoul\<close> yields another value.
\<close>

theorem v11_header_without_length_fails:
  assumes "hostname s \<noteq> None" and "readable s" and "version s = NETCONFV11" and "buffer_ready w"
    and "delivers (w_in w) (concat (map chunk_frame cs) @ [LF, CHR ''#''] @ hdr @ [LF] @ rest)"
    and "\<forall>c \<in> set cs. c \<noteq> [] \<and> length c < ULONG_MAX"
    and "LF \<notin> set hdr" and "length hdr < 1000"
    and "\<not> strcmp_eq (cstr (hdr @ [LF])) [CHR ''#'', LF]"
    and "strtoul (cstr (hdr @ [LF])) = 0"
  shows "\<exists>w'. nc_session_recv_reply xmlReadDoc (Some s) w = Inr (0, None, w')"
proof -
  have inv: "text_inv None 0 0" by (simp add: text_inv_def)
  obtain w1 tsz1 tlen1 where w1: "buffer_ready w1"
      "delivers (w_in w1) ([LF, CHR ''#''] @ hdr @ [LF] @ rest)"
    and r1: "v11_loop s None 0 0 w =
       v11_loop s (if cs = [] then None else Some (so_far None @ concat (map cstr cs))) tsz1 tlen1 w1"
    using v11_loop_chunks [OF assms(2,4,5,6) inv] by blast
  obtain w2 where
    "v11_loop s (if cs = [] then None else Some (so_far None @ concat (map cstr cs))) tsz1 tlen1 w1 =
       Inr (None, w2)"
    using v11_loop_no_length [OF assms(2) w1 assms(7-10)] by blast
  with r1 have "nc_session_receive_frame s w = Inr (None, w2)"
    using assms(3) by (simp add: nc_session_receive_frame_def NETCONFV10_def NETCONFV11_def)
  then show ?thesis
    using assms(1)
    by (auto simp: nc_session_recv_reply_def nc_session_receive_def EXIT_FAILURE_def EXIT_SUCCESS_def)
qed

theorem v11_header_without_length_fails_witness:
  "\<exists>w'. nc_session_recv_reply parse_reply_ok (Some (session_fd NETCONFV11))
       (world_of [Recv [LF, CHR ''#'', CHR ''0'', LF]]) = Inr (0, None, w')"
  using v11_header_without_length_fails [of "session_fd NETCONFV11"
      "world_of [Recv [LF, CHR ''#'', CHR ''0'', LF]]" "[]" "''0''" "[]" parse_reply_ok]
  by (simp add: session_fd_def world_of_def readable_def buffer_ready_def delivers_def bytes_of_def
      strcmp_eq_def strtoul_def isspace_def isdigit_def digit_val_def ULONG_MAX_def LF_def NUL_def)

text \<open>
  Claim C7 as it was stated also refuses a length field that is not a decimal number.
  One such field is \<^verbatim>\<open>43x\<close>: \<^verbatim>\<open>strtoul\<close> yields 43 for it, the 43 bytes
  that follow are read as the chunk, and the reply is returned with its message id 7.
\<close>

theorem v11_header_with_trailing_bytes_is_accepted:
  "nc_session_recv_reply parse_reply_ok (Some (session_fd NETCONFV11))
     (world_of [Recv ([LF, CHR ''#''] @ ''43x'' @ [LF] @ reply_ok_text @ NC_V11_END_MSG)]) =
   Inr (7, Some \<lparr>doc = Some reply_ok_doc, msgid = 7, type = NC_REPLY_OK\<rparr>,
        (world_of [])\<lparr>buflen := 1024\<rparr>)"
proof -
  have "nc_session_receive_frame (session_fd NETCONFV11)
     (world_of [Recv ([LF, CHR ''#''] @ ''43x'' @ [LF] @ reply_ok_text @ NC_V11_END_MSG)]) =
   Inr (Some (Some reply_ok_text), (world_of [])\<lparr>buflen := 1024\<rparr>)"
    by (simp add: eval_defs reply_ok_text_def)
  then show ?thesis
    by (simp add: nc_session_recv_reply_def nc_session_receive_def parse_reply_ok_def
        reply_of_doc_def reply_ok_doc_def first_node_def xmlGetProp_def nc_reply_get_msgid_def
        strtoull_def strtoul_def isspace_def isdigit_def digit_val_def ULONG_MAX_def
        EXIT_SUCCESS_def EXIT_FAILURE_def session_fd_def)
qed

text \<open>
  Claim C8, amended: for every splitting of a payload into one or more chunks, each of
  them non-empty, free of zero bytes and shorter than \<open>2 ^ 64 - 1\<close> bytes, each behind
  its own header and the whole followed by the terminator, the decoder returns the
  chunks joined in order, and leaves in the input what follows the terminator.
\<close>

theorem v11_decoder_joins_chunks:
  assumes "readable s" and "version s = NETCONFV11" and "buffer_ready w"
    and "delivers (w_in w) (concat (map chunk_frame cs) @ NC_V11_END_MSG @ rest)"
    and "cs \<noteq> []"
    and "\<forall>c \<in> set cs. c \<noteq> [] \<and> NUL \<notin> set c \<and> length c < ULONG_MAX"
  shows "\<exists>w'. nc_session_receive_frame s w = Inr (Some (Some (concat cs)), w') \<and>
     delivers (w_in w') rest"
proof -
  have inv: "text_inv None 0 0" by (simp add: text_inv_def)
  from assms(6) have ok: "\<forall>c \<in> set cs. c \<noteq> [] \<and> length c < ULONG_MAX" by simp
  obtain w1 tsz1 tlen1 where w1: "buffer_ready w1" "delivers (w_in w1) (NC_V11_END_MSG @ rest)"
    and r1: "v11_loop s None 0 0 w =
       v11_loop s (if cs = [] then None else Some (so_far None @ concat (map cstr cs))) tsz1 tlen1 w1"
    using v11_loop_chunks [OF assms(1,3,4) ok inv] by blast
  obtain w2 where w2: "delivers (w_in w2) rest"
    and r2: "v11_loop s (Some (concat (map cstr cs))) tsz1 tlen1 w1 = Inr (Some (Some (concat (map cstr cs))), w2)"
    using v11_loop_end [OF assms(1) w1] by blast
  have "concat (map cstr cs) = concat cs"
    using assms(6) by (intro concat_cstr) simp
  with r1 r2 assms(5) have "v11_loop s None 0 0 w = Inr (Some (Some (concat cs)), w2)"
    by (simp add: so_far_def)
  with assms(2) w2 show ?thesis
    by (auto simp: nc_session_receive_frame_def NETCONFV10_def NETCONFV11_def)
qed

theorem v11_decoder_joins_chunks_witness:
  "\<exists>w'. nc_session_receive_frame (session_fd NETCONFV11)
       (world_of [Recv ([LF, CHR ''#'', CHR ''5'', LF] @ ''hello'' @
                        [LF, CHR ''#'', CHR ''6'', LF] @ '' world'' @ NC_V11_END_MSG)]) =
     Inr (Some (Some ''hello world''), w') \<and> delivers (w_in w') []"
  using v11_decoder_joins_chunks [of "session_fd NETCONFV11"
      "world_of [Recv ([LF, CHR ''#'', CHR ''5'', LF] @ ''hello'' @
                        [LF, CHR ''#'', CHR ''6'', LF] @ '' world'' @ NC_V11_END_MSG)]"
      "[''hello'', '' world'']" "[]"]
  by (simp add: session_fd_def world_of_def readable_def buffer_ready_def delivers_def bytes_of_def
      chunk_frame_def dec.simps digit_char_def NUL_def ULONG_MAX_def)

text \<open>
  The message is kept as a C string: a chunk is appended with \<^verbatim>\<open>strcat\<close>, which
  stops at the first zero byte. The three payload bytes \<^verbatim>\<open>a\<close>, zero, \<^verbatim>\<open>b\<close>
  in one chunk are decoded as \<^verbatim>\<open>a\<close>.
\<close>

theorem v11_decoder_cuts_at_zero_byte:
  "nc_session_receive_frame (session_fd NETCONFV11)
     (world_of [Recv ([LF, CHR ''#'', CHR ''3'', LF, CHR ''a'', NUL, CHR ''b''] @ NC_V11_END_MSG)]) =
   Inr (Some (Some ''a''), (world_of [])\<lparr>buflen := 1024\<rparr>)"
  by (simp add: eval_defs)

end
